theory Spec2Isabelle
  imports Main
begin

section \<open>The geometry database (src/editor/GeometryDatabase.ts)\<close>

text \<open>
  \<open>c3d.SimpleName\<close> is a JavaScript number, a double, that holds an integer: a counter
  value or a name handed back by the kernel. It is modelled as an \<open>int\<close>, and the two
  arithmetic operations the class applies to it, \<open>x + 1\<close> and \<open>x - 1\<close>, round their exact
  result to the nearest double, ties to the even mantissa, as the machine does. Up to
  \<open>2^53\<close> in magnitude every integer is a double; beyond, a number of \<open>b\<close> bits is a
  multiple of \<open>2^(b - 53)\<close>.
\<close>

type_synonym SimpleName = int

fun bit_length :: "nat \<Rightarrow> nat" where
  "bit_length n = (if n = 0 then 0 else Suc (bit_length (n div 2)))"

declare bit_length.simps [simp del]

definition to_double :: "int \<Rightarrow> int" where
  "to_double y =
     (if \<bar>y\<bar> \<le> 2 ^ 53 then y
      else let u = 2 ^ (bit_length (nat \<bar>y\<bar>) - 53); q = y div u; r = y mod u
           in if 2 * r < u then q * u
              else if u < 2 * r then (q + 1) * u
              else if even q then q * u else (q + 1) * u)"

definition plus_one :: "SimpleName \<Rightarrow> SimpleName" where
  "plus_one x = to_double (x + 1)"

definition minus_one :: "SimpleName \<Rightarrow> SimpleName" where
  "minus_one x = to_double (x - 1)"

datatype SpaceType = Solid | SpaceInstance | PlaneInstance | Curve3D | Surface | Assembly | Instance

datatype Agent = user | automatic

datatype Mode = real | temporary

text \<open>The four arguments of \<open>unit\<close> in the three precision tables; \<open>unit\<close> itself is imported.\<close>

datatype Sag = unit_0_05 | unit_0_001 | unit_0_0005 | unit_0_004

datatype Error =
    type_not_yet_supported SpaceType
  | invalid_precondition string
  | missing_from_geometry_model SimpleName
  | missing_from_topology_model string
  | missing_from_control_point_model string
  | kernel_error

text \<open>
  A kernel item: what \<open>IsA()\<close> answers, the family of \<open>GetSpaceItem()\<close> (\<open>None\<close> for
  \<open>null\<close>), and the geometry itself, opaque.
\<close>

record c3d_Item =
  IsA :: SpaceType
  GetSpaceItem :: "SpaceType option"
  geometry :: nat

text \<open>What \<open>meshCreator.create\<close> returns, as far as \<open>object2mesh\<close> looks at it.\<close>

record MeshItem =
  edges_length :: nat
  faces_length :: nat

text \<open>
  A view: its \<open>simpleName\<close>, whether it is an \<open>instanceof visual.Solid\<close>, the simple names
  of \<open>allFaces\<close>, and the simple names of the points of the control point groups that
  \<open>traverse\<close> visits.
\<close>

record visual_Item =
  simpleName :: SimpleName
  instanceof_Solid :: bool
  allFaces :: "string list"
  controlPoints :: "string list"

datatype TopologyData = TopologyData nat
datatype ControlPointData = ControlPointData nat

datatype Signal =
    sceneGraphChanged
  | objectAdded visual_Item Agent
  | objectRemoved visual_Item Agent
  | temporaryObjectAdded visual_Item

text \<open>
  The collaborators that are imported and not part of this class: the mesh creator, the
  builder's \<open>build\<close>, which receives the two maps and may register entries in them, and
  the order in time in which failing mesh jobs fail: \<open>first_in_time\<close> picks, among the
  errors of the jobs that were rejected, the one that came first.
\<close>

record External =
  create :: "c3d_Item \<Rightarrow> Sag \<Rightarrow> bool \<Rightarrow> bool \<Rightarrow> Error + MeshItem"
  first_in_time :: "Error list \<Rightarrow> Error"
  build :: "c3d_Item \<Rightarrow> SimpleName \<Rightarrow> (string \<rightharpoonup> TopologyData) \<Rightarrow> (string \<rightharpoonup> ControlPointData)
    \<Rightarrow> visual_Item \<times> (string \<rightharpoonup> TopologyData) \<times> (string \<rightharpoonup> ControlPointData)"

text \<open>
  The fields of the class. A value of \<open>version2name\<close> and a key of \<open>name2version\<close> are
  \<open>SimpleName option\<close>: \<open>replaceItem\<close> stores the result of \<open>version2name.get(...)!\<close>, which
  is \<open>undefined\<close> (\<open>None\<close>) when the looked-up version is absent.
\<close>

record Scalars =
  positiveCounter :: int
  negativeCounter :: int
  temporaryObjects :: "visual_Item list"
  phantomObjects :: "visual_Item list"
  signals :: "Signal list"

record GeometryDatabase = Scalars +
  geometryModel :: "SimpleName \<rightharpoonup> visual_Item \<times> c3d_Item"
  version2name :: "SimpleName \<rightharpoonup> SimpleName option"
  name2version :: "SimpleName option \<rightharpoonup> SimpleName"
  automatics :: "SimpleName set"
  topologyModel :: "string \<rightharpoonup> TopologyData"
  controlPointModel :: "string \<rightharpoonup> ControlPointData"

definition new_GeometryDatabase :: GeometryDatabase where
  "new_GeometryDatabase =
     \<lparr> positiveCounter = 1, negativeCounter = - 1, temporaryObjects = [], phantomObjects = [],
       signals = [],
       geometryModel = Map.empty, version2name = Map.empty, name2version = Map.empty,
       automatics = {}, topologyModel = Map.empty, controlPointModel = Map.empty \<rparr>"

text \<open>\<open>Map.prototype.get\<close> where a stored value may itself be \<open>undefined\<close>.\<close>

definition get :: "('k \<rightharpoonup> 'v option) \<Rightarrow> 'k \<Rightarrow> 'v option" where
  "get m k = (case m k of None \<Rightarrow> None | Some v \<Rightarrow> v)"

definition mesh_precision_distance :: "(Sag \<times> nat) list" where
  "mesh_precision_distance = [(unit_0_05, 1000), (unit_0_001, 1)]"

definition other_precision_distance :: "(Sag \<times> nat) list" where
  "other_precision_distance = [(unit_0_0005, 1)]"

definition temporary_precision_distance :: "(Sag \<times> nat) list" where
  "temporary_precision_distance = [(unit_0_004, 1)]"

definition precisionAndDistanceFor :: "c3d_Item \<Rightarrow> Mode \<Rightarrow> (Sag \<times> nat) list" where
  "precisionAndDistanceFor item mode =
     (if IsA item = Solid
      then (if mode = real then mesh_precision_distance else temporary_precision_distance)
      else other_precision_distance)"

text \<open>\<open>object2mesh\<close>: \<open>None\<close> when it returns, \<open>Some e\<close> when it throws \<open>e\<close>.\<close>

definition object2mesh :: "External \<Rightarrow> c3d_Item \<Rightarrow> SimpleName \<Rightarrow> Sag \<Rightarrow> nat \<Rightarrow> bool \<Rightarrow> Error option" where
  "object2mesh E obj id' sag distance includeMetadata =
     (case create E obj sag (IsA obj = Solid) includeMetadata of
        Inl e \<Rightarrow> Some e
      | Inr item \<Rightarrow>
          (case IsA obj of
             SpaceInstance \<Rightarrow>
               (case GetSpaceItem obj of
                  None \<Rightarrow> Some (invalid_precondition '''')
                | Some Curve3D \<Rightarrow>
                    (if edges_length item = 0 then Some (invalid_precondition ''no edges'') else None)
                | Some Surface \<Rightarrow>
                    (if faces_length item \<noteq> 1 then Some (invalid_precondition '''') else None)
                | Some _ \<Rightarrow> Some (invalid_precondition ''''))
           | PlaneInstance \<Rightarrow>
               (if faces_length item \<noteq> 1 then Some (invalid_precondition ''grid with length'') else None)
           | Solid \<Rightarrow> None
           | t \<Rightarrow> Some (type_not_yet_supported t)))"

text \<open>
  \<open>meshes\<close> starts one job for each precision and awaits them with \<open>Promise.all\<close>, which
  is rejected with the error of the job that is rejected first in time.
\<close>

fun rejections :: "Error option list \<Rightarrow> Error list" where
  "rejections [] = []"
| "rejections (None # rs) = rejections rs"
| "rejections (Some e # rs) = e # rejections rs"

definition meshes :: "External \<Rightarrow> c3d_Item \<Rightarrow> SimpleName \<Rightarrow> (Sag \<times> nat) list \<Rightarrow> bool \<Rightarrow> Error option" where
  "meshes E obj id' precision_distance includeMetadata =
     (if IsA obj = SpaceInstance \<or> IsA obj = PlaneInstance \<or> IsA obj = Solid
      then (let errors = rejections
                  (map (\<lambda>(precision, distance).
                         object2mesh E obj id' precision distance includeMetadata)
                     precision_distance)
            in if errors = [] then None else Some (first_in_time E errors))
      else Some (type_not_yet_supported (IsA obj)))"

text \<open>
  \<open>insertItem\<close>. The counter is advanced before meshing, so a failed insertion still
  consumes the id.
\<close>

definition insertItem ::
  "External \<Rightarrow> c3d_Item \<Rightarrow> Agent \<Rightarrow> SimpleName option \<Rightarrow> GeometryDatabase
     \<Rightarrow> (Error + visual_Item) \<times> GeometryDatabase" where
  "insertItem E model agent name db =
     (let name' = (case name of None \<Rightarrow> positiveCounter db | Some n \<Rightarrow> n);
          db1 = db\<lparr> positiveCounter :=
                  (case name of None \<Rightarrow> plus_one (positiveCounter db)
                   | Some n \<Rightarrow> max (positiveCounter db) (plus_one n)) \<rparr>
      in case meshes E model name' (precisionAndDistanceFor model real) True of
           Some e \<Rightarrow> (Inl e, db1)
         | None \<Rightarrow>
             (let (built, topology, points) =
                    build E model name' (topologyModel db1) (controlPointModel db1);
                  view = built\<lparr> simpleName := name' \<rparr>
              in (Inr view,
                  db1\<lparr> geometryModel := (geometryModel db1)(name' \<mapsto> (view, model)),
                       topologyModel := topology,
                       controlPointModel := points,
                       automatics :=
                         (if agent = automatic then insert name' (automatics db1)
                          else automatics db1),
                       signals := signals db1 @ [sceneGraphChanged, objectAdded view agent] \<rparr>)))"

definition addItem ::
  "External \<Rightarrow> c3d_Item \<Rightarrow> Agent \<Rightarrow> SimpleName option \<Rightarrow> GeometryDatabase
     \<Rightarrow> (Error + visual_Item) \<times> GeometryDatabase" where
  "addItem E model agent name db =
     (case insertItem E model agent name db of
        (Inl e, db1) \<Rightarrow> (Inl e, db1)
      | (Inr result, db1) \<Rightarrow>
          (Inr result,
           db1\<lparr> version2name := (version2name db1)(simpleName result \<mapsto> Some (simpleName result)),
                name2version := (name2version db1)(Some (simpleName result) \<mapsto> simpleName result) \<rparr>))"

text \<open>
  \<open>removeTopologyItems\<close> deletes the faces of a solid (its second loop runs over
  \<open>allFaces\<close> once more); \<open>removeControlPoints\<close> deletes the points of every control point
  group below the view.
\<close>

definition removeTopologyItems :: "visual_Item \<Rightarrow> (string \<rightharpoonup> TopologyData) \<Rightarrow> (string \<rightharpoonup> TopologyData)" where
  "removeTopologyItems parent topology =
     (if instanceof_Solid parent
      then foldl (\<lambda>m k. m(k := None)) (foldl (\<lambda>m k. m(k := None)) topology (allFaces parent))
             (allFaces parent)
      else topology)"

definition removeControlPoints :: "visual_Item \<Rightarrow> (string \<rightharpoonup> ControlPointData) \<Rightarrow> (string \<rightharpoonup> ControlPointData)" where
  "removeControlPoints parent points = foldl (\<lambda>m k. m(k := None)) points (controlPoints parent)"

definition removeItem' :: "visual_Item \<Rightarrow> Agent \<Rightarrow> GeometryDatabase \<Rightarrow> GeometryDatabase" where
  "removeItem' view agent db =
     db\<lparr> geometryModel := (geometryModel db)(simpleName view := None),
         topologyModel := removeTopologyItems view (topologyModel db),
         controlPointModel := removeControlPoints view (controlPointModel db),
         automatics := automatics db - {simpleName view},
         signals := signals db @ [objectRemoved view agent, sceneGraphChanged] \<rparr>"

definition replaceItem ::
  "External \<Rightarrow> visual_Item \<Rightarrow> c3d_Item \<Rightarrow> GeometryDatabase
     \<Rightarrow> (Error + visual_Item) \<times> GeometryDatabase" where
  "replaceItem E from model db =
     (case insertItem E model user None db of
        (Inl e, db1) \<Rightarrow> (Inl e, db1)
      | (Inr to, db1) \<Rightarrow>
          (let db2 = removeItem' from user db1;
               name = get (version2name db2) (simpleName from)
           in (Inr to,
               db2\<lparr> version2name :=
                      ((version2name db2)(simpleName from := None))(simpleName to \<mapsto> name),
                    name2version := (name2version db2)(name \<mapsto> simpleName to) \<rparr>)))"

text \<open>\<open>removeItem\<close>; \<open>nodes.delete\<close> acts on the imported \<open>Nodes\<close> object only.\<close>

definition removeItem :: "visual_Item \<Rightarrow> Agent \<Rightarrow> GeometryDatabase \<Rightarrow> GeometryDatabase" where
  "removeItem view agent db =
     (let db1 = removeItem' view agent db;
          old = get (version2name db1) (simpleName view)
      in db1\<lparr> version2name := (version2name db1)(simpleName view := None),
              name2version := (name2version db1)(old := None) \<rparr>)"

text \<open>
  \<open>addTemporaryItem\<close>; \<open>into_temporaryObjects\<close> says whether \<open>into\<close> is the scene of
  temporary objects (the default) or the scene of phantoms. No map is handed to \<open>build\<close>.
\<close>

definition addTemporaryItem ::
  "External \<Rightarrow> c3d_Item \<Rightarrow> bool \<Rightarrow> GeometryDatabase \<Rightarrow> (Error + visual_Item) \<times> GeometryDatabase" where
  "addTemporaryItem E model into_temporaryObjects db =
     (let tempId = negativeCounter db;
          db1 = db\<lparr> negativeCounter := minus_one (negativeCounter db) \<rparr>
      in case meshes E model tempId (precisionAndDistanceFor model temporary) False of
           Some e \<Rightarrow> (Inl e, db1)
         | None \<Rightarrow>
             (let view = fst (build E model tempId Map.empty Map.empty)
              in (Inr view,
                  if into_temporaryObjects
                  then db1\<lparr> temporaryObjects := temporaryObjects db1 @ [view],
                            signals := signals db1 @ [temporaryObjectAdded view] \<rparr>
                  else db1\<lparr> phantomObjects := phantomObjects db1 @ [view] \<rparr>)))"

definition addPhantom ::
  "External \<Rightarrow> c3d_Item \<Rightarrow> GeometryDatabase \<Rightarrow> (Error + visual_Item) \<times> GeometryDatabase" where
  "addPhantom E object db = addTemporaryItem E object False db"

definition lookupItemById :: "GeometryDatabase \<Rightarrow> SimpleName \<Rightarrow> Error + visual_Item \<times> c3d_Item" where
  "lookupItemById db id' =
     (case geometryModel db id' of
        None \<Rightarrow> Inl (missing_from_geometry_model id')
      | Some result \<Rightarrow> Inr result)"

definition lookupTopologyItemById :: "GeometryDatabase \<Rightarrow> string \<Rightarrow> Error + TopologyData" where
  "lookupTopologyItemById db id' =
     (case topologyModel db id' of
        None \<Rightarrow> Inl (missing_from_topology_model id')
      | Some result \<Rightarrow> Inr result)"

definition lookupControlPointById :: "GeometryDatabase \<Rightarrow> string \<Rightarrow> Error + ControlPointData" where
  "lookupControlPointById db id' =
     (case controlPointModel db id' of
        None \<Rightarrow> Inl (missing_from_control_point_model id')
      | Some result \<Rightarrow> Inr result)"

text \<open>
  The mutating methods all run inside \<open>queue.enqueue\<close>, one after the other, so a use of
  the database is a sequence of operations, each applied to the state its predecessor left.
  A rejected operation leaves the state it reached and the next one still runs.
\<close>

datatype Operation =
    AddItem c3d_Item Agent "SimpleName option"
  | ReplaceItem visual_Item c3d_Item
  | RemoveItem visual_Item Agent
  | AddTemporaryItem c3d_Item
  | AddPhantom c3d_Item

fun perform :: "External \<Rightarrow> Operation \<Rightarrow> GeometryDatabase
    \<Rightarrow> (Error + visual_Item) option \<times> GeometryDatabase" where
  "perform E (AddItem model agent name) db =
     (let (r, db1) = addItem E model agent name db in (Some r, db1))"
| "perform E (ReplaceItem from model) db =
     (let (r, db1) = replaceItem E from model db in (Some r, db1))"
| "perform E (RemoveItem view agent) db = (None, removeItem view agent db)"
| "perform E (AddTemporaryItem model) db =
     (let (r, db1) = addTemporaryItem E model True db in (Some r, db1))"
| "perform E (AddPhantom model) db =
     (let (r, db1) = addPhantom E model db in (Some r, db1))"

fun exec :: "External \<Rightarrow> Operation list \<Rightarrow> GeometryDatabase \<Rightarrow> GeometryDatabase" where
  "exec E [] db = db"
| "exec E (op # ops) db = exec E ops (snd (perform E op db))"

fun results :: "External \<Rightarrow> Operation list \<Rightarrow> GeometryDatabase \<Rightarrow> (Error + visual_Item) option list" where
  "results E [] db = []"
| "results E (op # ops) db = fst (perform E op db) # results E ops (snd (perform E op db))"

text \<open>
  The precondition of \<open>replaceItem\<close> and \<open>removeItem\<close>: the version looked up in
  \<open>version2name\<close> is there.
\<close>

fun lookups_exist :: "GeometryDatabase \<Rightarrow> Operation \<Rightarrow> bool" where
  "lookups_exist db (ReplaceItem from model) = (version2name db (simpleName from) \<noteq> None)"
| "lookups_exist db (RemoveItem view agent) = (version2name db (simpleName view) \<noteq> None)"
| "lookups_exist db _ = True"

fun all_along :: "(GeometryDatabase \<Rightarrow> Operation \<Rightarrow> bool) \<Rightarrow> External \<Rightarrow> Operation list
    \<Rightarrow> GeometryDatabase \<Rightarrow> bool" where
  "all_along P E [] db = True"
| "all_along P E (op # ops) db = (P db op \<and> all_along P E ops (snd (perform E op db)))"

definition inverses :: "GeometryDatabase \<Rightarrow> bool" where
  "inverses db = (\<forall>v n. version2name db v = Some n \<longleftrightarrow> name2version db n = Some v)"

text \<open>
  An external world where every mesh succeeds and \<open>build\<close> registers nothing. Its
  builder names the view by the id it is given, which is what \<open>builds_named\<close> says of
  an external world.
\<close>

definition builds_named :: "External \<Rightarrow> bool" where
  "builds_named E = (\<forall>model name topology points.
     simpleName (fst (build E model name topology points)) = name)"

definition plain_view :: visual_Item where
  "plain_view = \<lparr> simpleName = 0, instanceof_Solid = False, allFaces = [], controlPoints = [] \<rparr>"

definition plain_External :: External where
  "plain_External =
     \<lparr> create = (\<lambda>obj sag solid includeMetadata. Inr \<lparr> edges_length = 1, faces_length = 1 \<rparr>),
       first_in_time = hd,
       build = (\<lambda>model name topology points.
                  (plain_view\<lparr> simpleName := name \<rparr>, topology, points)) \<rparr>"

definition a_solid :: c3d_Item where
  "a_solid = \<lparr> IsA = Solid, GetSpaceItem = None, geometry = 0 \<rparr>"

definition view_named :: "SimpleName \<Rightarrow> visual_Item" where
  "view_named n = plain_view\<lparr> simpleName := n \<rparr>"

text \<open>
  The range in which the counters count: an operation that takes an id from a counter finds
  the counter short of \<open>2^53\<close> in magnitude, and an explicit name is short of it too. Within
  it \<open>x + 1\<close> and \<open>x - 1\<close> are exact.
\<close>

fun in_range :: "GeometryDatabase \<Rightarrow> Operation \<Rightarrow> bool" where
  "in_range db (AddItem model agent None) = (positiveCounter db < 2 ^ 53)"
| "in_range db (AddItem model agent (Some n)) = (- (2 ^ 53) < n \<and> n < 2 ^ 53)"
| "in_range db (ReplaceItem from model) = (positiveCounter db < 2 ^ 53)"
| "in_range db (RemoveItem view agent) = True"
| "in_range db (AddTemporaryItem model) = (- (2 ^ 53) < negativeCounter db)"
| "in_range db (AddPhantom model) = (- (2 ^ 53) < negativeCounter db)"

text \<open>The operations that hand out the id of a real item, and the explicit names they are given.\<close>

fun is_real :: "Operation \<Rightarrow> bool" where
  "is_real (AddItem model agent name) = True"
| "is_real (ReplaceItem from model) = True"
| "is_real _ = False"

fun explicit_positive :: "GeometryDatabase \<Rightarrow> Operation \<Rightarrow> bool" where
  "explicit_positive db (AddItem model agent (Some n)) = (0 < n)"
| "explicit_positive db _ = True"

definition positive_only :: "GeometryDatabase \<Rightarrow> bool" where
  "positive_only db =
     ((\<forall>v n. version2name db v = Some n \<longrightarrow> 0 < v \<and> (\<forall>m. n = Some m \<longrightarrow> 0 < m)) \<and>
      (\<forall>n v. name2version db n = Some v \<longrightarrow> 0 < v \<and> (\<forall>m. n = Some m \<longrightarrow> 0 < m)))"

text \<open>Every version in the index is below the counter, and the counter is positive.\<close>

definition versions_below :: "GeometryDatabase \<Rightarrow> bool" where
  "versions_below db =
     (0 < positiveCounter db \<and> (\<forall>v. version2name db v \<noteq> None \<longrightarrow> v < positiveCounter db))"

definition colliding_name :: "Operation list" where
  "colliding_name =
     [AddItem a_solid user None, ReplaceItem (view_named 1) a_solid, AddItem a_solid user (Some 1)]"

definition named_then_replaced :: "Operation list" where
  "named_then_replaced = [AddItem a_solid user (Some 5), ReplaceItem (view_named 5) a_solid]"

definition named_at_the_limit :: "Operation list" where
  "named_at_the_limit = [AddItem a_solid user (Some 9007199254740992)]"

section \<open>Mementos and object identity\<close>

text \<open>
  \<open>saveToMemento\<close> and \<open>restoreFromMemento\<close> are about which \<open>Map\<close> and \<open>Set\<close> objects
  are shared. Here the six collections live in a store, one family of objects per type of
  collection; \<open>new Map(...)\<close> and \<open>new Set(...)\<close> take the next unused reference. The
  database object holds six references and its scalar fields, and a memento holds the six
  references its constructor was given.
\<close>

type_synonym ref = nat

record Store =
  geometry_maps :: "ref \<Rightarrow> (SimpleName \<rightharpoonup> visual_Item \<times> c3d_Item)"
  version_maps :: "ref \<Rightarrow> (SimpleName \<rightharpoonup> SimpleName option)"
  name_maps :: "ref \<Rightarrow> (SimpleName option \<rightharpoonup> SimpleName)"
  topology_maps :: "ref \<Rightarrow> (string \<rightharpoonup> TopologyData)"
  point_maps :: "ref \<Rightarrow> (string \<rightharpoonup> ControlPointData)"
  name_sets :: "ref \<Rightarrow> SimpleName set"
  allocated :: nat

record This = Scalars +
  this_geometryModel :: ref
  this_version2name :: ref
  this_name2version :: ref
  this_automatics :: ref
  this_topologyModel :: ref
  this_controlPointModel :: ref

record GeometryMemento =
  m_geometryModel :: ref
  m_version2name :: ref
  m_name2version :: ref
  m_topologyModel :: ref
  m_controlPointModel :: ref
  m_automatics :: ref

type_synonym Tracked =
  "(SimpleName \<rightharpoonup> visual_Item \<times> c3d_Item) \<times> (SimpleName \<rightharpoonup> SimpleName option) \<times>
   (SimpleName option \<rightharpoonup> SimpleName) \<times> (string \<rightharpoonup> TopologyData) \<times>
   (string \<rightharpoonup> ControlPointData) \<times> SimpleName set"

text \<open>The field initialisers of a new database: six empty collections, one after the other.\<close>

definition new_Store :: Store where
  "new_Store =
     \<lparr> geometry_maps = (\<lambda>r. Map.empty), version_maps = (\<lambda>r. Map.empty),
       name_maps = (\<lambda>r. Map.empty), topology_maps = (\<lambda>r. Map.empty),
       point_maps = (\<lambda>r. Map.empty), name_sets = (\<lambda>r. {}), allocated = 6 \<rparr>"

definition new_This :: This where
  "new_This =
     \<lparr> positiveCounter = 1, negativeCounter = - 1, temporaryObjects = [], phantomObjects = [],
       signals = [],
       this_geometryModel = 0, this_version2name = 1, this_name2version = 2,
       this_automatics = 3, this_topologyModel = 4, this_controlPointModel = 5 \<rparr>"

text \<open>The database as the methods see it: every field read through its reference.\<close>

definition load :: "This \<Rightarrow> Store \<Rightarrow> GeometryDatabase" where
  "load this st =
     \<lparr> positiveCounter = positiveCounter this, negativeCounter = negativeCounter this,
       temporaryObjects = temporaryObjects this, phantomObjects = phantomObjects this,
       signals = signals this,
       geometryModel = geometry_maps st (this_geometryModel this),
       version2name = version_maps st (this_version2name this),
       name2version = name_maps st (this_name2version this),
       automatics = name_sets st (this_automatics this),
       topologyModel = topology_maps st (this_topologyModel this),
       controlPointModel = point_maps st (this_controlPointModel this) \<rparr>"

text \<open>
  A method that mutates its collections does so in place: the objects the six fields refer
  to change, the references stay, nothing is allocated.
\<close>

definition write_back :: "This \<Rightarrow> GeometryDatabase \<Rightarrow> Store \<Rightarrow> Store" where
  "write_back this db st =
     st\<lparr> geometry_maps := (geometry_maps st)(this_geometryModel this := geometryModel db),
         version_maps := (version_maps st)(this_version2name this := version2name db),
         name_maps := (name_maps st)(this_name2version this := name2version db),
         name_sets := (name_sets st)(this_automatics this := automatics db),
         topology_maps := (topology_maps st)(this_topologyModel this := topologyModel db),
         point_maps := (point_maps st)(this_controlPointModel this := controlPointModel db) \<rparr>"

definition in_place :: "(GeometryDatabase \<Rightarrow> 'r \<times> GeometryDatabase) \<Rightarrow> This \<times> Store
    \<Rightarrow> 'r \<times> This \<times> Store" where
  "in_place method s =
     (let (this, st) = s;
          (r, db) = method (load this st)
      in (r,
          this\<lparr> positiveCounter := positiveCounter db, negativeCounter := negativeCounter db,
                temporaryObjects := temporaryObjects db, phantomObjects := phantomObjects db,
                signals := signals db \<rparr>,
          write_back this db st))"

text \<open>
  \<open>saveToMemento\<close>: six copies, made in the order of the constructor's arguments.
\<close>

definition saveToMemento :: "This \<times> Store \<Rightarrow> GeometryMemento \<times> Store" where
  "saveToMemento s =
     (let (this, st) = s; a = allocated st
      in (\<lparr> m_geometryModel = a, m_version2name = a + 1, m_name2version = a + 2,
            m_topologyModel = a + 3, m_controlPointModel = a + 4, m_automatics = a + 5 \<rparr>,
          st\<lparr> geometry_maps := (geometry_maps st)(a := geometry_maps st (this_geometryModel this)),
              version_maps := (version_maps st)(a + 1 := version_maps st (this_version2name this)),
              name_maps := (name_maps st)(a + 2 := name_maps st (this_name2version this)),
              topology_maps :=
                (topology_maps st)(a + 3 := topology_maps st (this_topologyModel this)),
              point_maps :=
                (point_maps st)(a + 4 := point_maps st (this_controlPointModel this)),
              name_sets := (name_sets st)(a + 5 := name_sets st (this_automatics this)),
              allocated := a + 6 \<rparr>))"

text \<open>
  \<open>restoreFromMemento\<close>: each field is assigned a new copy of the memento's collection.
\<close>

definition restoreFromMemento :: "GeometryMemento \<Rightarrow> This \<times> Store \<Rightarrow> This \<times> Store" where
  "restoreFromMemento m s =
     (let (this, st) = s; a = allocated st
      in (this\<lparr> this_geometryModel := a, this_version2name := a + 1,
                this_name2version := a + 2, this_topologyModel := a + 3,
                this_controlPointModel := a + 4, this_automatics := a + 5 \<rparr>,
          st\<lparr> geometry_maps := (geometry_maps st)(a := geometry_maps st (m_geometryModel m)),
              version_maps := (version_maps st)(a + 1 := version_maps st (m_version2name m)),
              name_maps := (name_maps st)(a + 2 := name_maps st (m_name2version m)),
              topology_maps := (topology_maps st)(a + 3 := topology_maps st (m_topologyModel m)),
              point_maps :=
                (point_maps st)(a + 4 := point_maps st (m_controlPointModel m)),
              name_sets := (name_sets st)(a + 5 := name_sets st (m_automatics m)),
              allocated := a + 6 \<rparr>))"

definition tracked :: "GeometryDatabase \<Rightarrow> Tracked" where
  "tracked db =
     (geometryModel db, version2name db, name2version db, topologyModel db,
      controlPointModel db, automatics db)"

definition contents :: "GeometryMemento \<Rightarrow> Store \<Rightarrow> Tracked" where
  "contents m st =
     (geometry_maps st (m_geometryModel m), version_maps st (m_version2name m),
      name_maps st (m_name2version m), topology_maps st (m_topologyModel m),
      point_maps st (m_controlPointModel m), name_sets st (m_automatics m))"

text \<open>What can happen to the live database after a snapshot was taken.\<close>

datatype Live_Operation =
    Mutate Operation
  | Save
  | Restore GeometryMemento

fun live_step :: "External \<Rightarrow> Live_Operation \<Rightarrow> This \<times> Store \<Rightarrow> This \<times> Store" where
  "live_step E (Mutate op) s = snd (in_place (perform E op) s)"
| "live_step E Save s = (fst s, snd (saveToMemento s))"
| "live_step E (Restore m) s = restoreFromMemento m s"

fun live_exec :: "External \<Rightarrow> Live_Operation list \<Rightarrow> This \<times> Store \<Rightarrow> This \<times> Store" where
  "live_exec E [] s = s"
| "live_exec E (lop # lops) s = live_exec E lops (live_step E lop s)"

text \<open>Every collection of the database is an object that has been created.\<close>

definition created :: "This \<times> Store \<Rightarrow> bool" where
  "created s =
     (let (this, st) = s
      in this_geometryModel this < allocated st \<and> this_version2name this < allocated st \<and>
         this_name2version this < allocated st \<and> this_topologyModel this < allocated st \<and>
         this_controlPointModel this < allocated st \<and> this_automatics this < allocated st)"

text \<open>A memento whose collections are created objects and none of them the database's own.\<close>

definition apart :: "GeometryMemento \<Rightarrow> This \<times> Store \<Rightarrow> bool" where
  "apart m s =
     (let (this, st) = s
      in m_geometryModel m < allocated st \<and> m_version2name m < allocated st \<and>
         m_name2version m < allocated st \<and> m_topologyModel m < allocated st \<and>
         m_controlPointModel m < allocated st \<and> m_automatics m < allocated st \<and>
         m_geometryModel m \<noteq> this_geometryModel this \<and>
         m_version2name m \<noteq> this_version2name this \<and>
         m_name2version m \<noteq> this_name2version this \<and>
         m_topologyModel m \<noteq> this_topologyModel this \<and>
         m_controlPointModel m \<noteq> this_controlPointModel this \<and>
         m_automatics m \<noteq> this_automatics this)"

definition after_snapshot :: "GeometryMemento \<Rightarrow> Live_Operation list" where
  "after_snapshot m =
     [Mutate (AddItem a_solid user None), Mutate (ReplaceItem (view_named 1) a_solid),
      Restore m, Mutate (AddItem a_solid automatic None), Save,
      Mutate (RemoveItem (view_named 3) user)]"

section \<open>The command executor\<close>

text \<open>
  The test suite of \<open>CommandExecutor\<close> declares three command classes and drives the
  executor through four scenarios. \<open>CommandExecutor\<close>, \<open>Command\<close> and \<open>Delay\<close> are
  modelled from the specification, sections 4.2 and 4.3, read so that the four scenarios
  come out as the suite asserts.
\<close>

text \<open>A promise: \<open>delay.promise\<close>, what \<open>execute\<close> returns, what \<open>enqueue\<close> returns.\<close>

datatype Promise = pending | resolved | rejected

text \<open>
  Modelled from the spec: the lifecycle states of \<open>Command\<close> (section 4.2); the test reads
  them as the strings \<open>'None'\<close>, \<open>'Finished'\<close>, \<open>'Cancelled'\<close> and \<open>'Interrupted'\<close>.
\<close>

datatype State = None' | Started | Finished | Cancelled | Interrupted

text \<open>The command classes of the test file.\<close>

datatype Command_Class = DelayedCommand | ErroringCommand | FastCommand

record Command =
  klass :: Command_Class
  state :: State
  delay :: Promise

text \<open>
  \<open>execute\<close> of the three classes, as the promise it returns: a \<open>DelayedCommand\<close> awaits its
  delay, an \<open>ErroringCommand\<close> throws, a \<open>FastCommand\<close> returns.
\<close>

definition execute :: "Command \<Rightarrow> Promise" where
  "execute command =
     (case klass command of
        DelayedCommand \<Rightarrow> delay command
      | ErroringCommand \<Rightarrow> rejected
      | FastCommand \<Rightarrow> resolved)"

text \<open>
  Modelled from the spec: the fields of \<open>CommandExecutor\<close>. Commands are known by the order
  in which they were enqueued. \<open>active\<close> is the command whose effect routine is on the
  serial queue; \<open>waiting\<close> is the most recent command enqueued behind it; \<open>handles\<close> are
  the promises \<open>enqueue\<close> returned, \<open>history\<close> the commands that produced a History entry.
\<close>

record CommandExecutor =
  commands :: "Command list"
  active :: "nat option"
  waiting :: "nat option"
  handles :: "Promise list"
  history :: "nat list"

text \<open>Modelled from the spec: a new \<open>CommandExecutor\<close>, as the test creates it.\<close>

definition new_CommandExecutor :: CommandExecutor where
  "new_CommandExecutor =
     \<lparr> commands = [], active = None, waiting = None, handles = [], history = [] \<rparr>"

text \<open>Modelled from the spec: assignment to the \<open>state\<close> field of a \<open>Command\<close>.\<close>

definition set_state :: "nat \<Rightarrow> State \<Rightarrow> CommandExecutor \<Rightarrow> CommandExecutor" where
  "set_state c s ex = ex\<lparr> commands := (commands ex)[c := (commands ex ! c)\<lparr> state := s \<rparr>] \<rparr>"

text \<open>
  Modelled from the spec: interruption of a \<open>Command\<close> (section 4.2, the transitions
  \<open>None -> Interrupted\<close> and \<open>Started -> Interrupted\<close>; terminal states do not change).
  The command has reached a terminal state with it, so the handle that \<open>enqueue\<close> returned
  for it resolves (section 4.3, step 6).
\<close>

definition interrupt :: "nat \<Rightarrow> CommandExecutor \<Rightarrow> CommandExecutor" where
  "interrupt a ex =
     (if state (commands ex ! a) = None' \<or> state (commands ex ! a) = Started
      then (set_state a Interrupted ex)\<lparr> handles := (handles ex)[a := resolved] \<rparr>
      else ex)"

text \<open>
  Modelled from the spec: \<open>CommandExecutor.enqueue\<close> up to its first suspension (section
  4.3, steps 1 to 3). The command on the queue is interrupted and not awaited. The new
  command, in state \<open>None\<close>, goes onto the queue when nothing is there, and otherwise waits
  behind the command on the queue. It takes the place of a command that was waiting
  already: that one is withdrawn in state \<open>None\<close> and its handle resolves, which is what the
  test 'enqueue cancels active commands and executes the most recent' observes of its
  second command.
\<close>

definition enqueue :: "Command_Class \<Rightarrow> CommandExecutor \<Rightarrow> CommandExecutor" where
  "enqueue k ex =
     (let c = length (commands ex);
          ex1 = (case active ex of None \<Rightarrow> ex | Some a \<Rightarrow> interrupt a ex);
          ex2 = ex1\<lparr> commands := commands ex1 @ [\<lparr> klass = k, state = None', delay = pending \<rparr>],
                    handles := handles ex1 @ [pending] \<rparr>
      in case active ex of
           None \<Rightarrow> ex2\<lparr> active := Some c \<rparr>
         | Some a \<Rightarrow>
             (case waiting ex of
                None \<Rightarrow> ex2\<lparr> waiting := Some c \<rparr>
              | Some w \<Rightarrow> ex2\<lparr> waiting := Some c, handles := (handles ex2)[w := resolved] \<rparr>))"

text \<open>
  Modelled from the spec: \<open>Delay.resolve\<close> and \<open>Delay.reject\<close> on the delay of a
  \<open>DelayedCommand\<close>; a promise settles once.
\<close>

definition settle_delay :: "nat \<Rightarrow> Promise \<Rightarrow> CommandExecutor \<Rightarrow> CommandExecutor" where
  "settle_delay c p ex =
     (if c < length (commands ex) \<and> delay (commands ex ! c) = pending
      then ex\<lparr> commands := (commands ex)[c := (commands ex ! c)\<lparr> delay := p \<rparr>] \<rparr>
      else ex)"

text \<open>
  Modelled from the spec: the queue reaches the command (section 4.3, step 4):
  \<open>None -> Started\<close>; a command interrupted before keeps its state.
\<close>

definition start :: "nat \<Rightarrow> CommandExecutor \<Rightarrow> CommandExecutor" where
  "start a ex = (if state (commands ex ! a) = None' then set_state a Started ex else ex)"

text \<open>
  Modelled from the spec: the effect routine of the command on the queue has settled as
  \<open>p\<close> (section 4.3, steps 5 and 6). Success makes the command \<open>Finished\<close> and appends a
  History entry, an error makes it \<open>Cancelled\<close>, and a command that was interrupted stays
  \<open>Interrupted\<close>. The queue's own handle would be rejected on an error (section 4.1); the
  handle of \<open>enqueue\<close> resolves either way. The waiting command moves onto the queue.
\<close>

definition settle :: "nat \<Rightarrow> Promise \<Rightarrow> CommandExecutor \<Rightarrow> CommandExecutor" where
  "settle a p ex =
     (let ex1 =
            (if state (commands ex ! a) = Interrupted then ex
             else if p = resolved then (set_state a Finished ex)\<lparr> history := history ex @ [a] \<rparr>
             else set_state a Cancelled ex)
      in ex1\<lparr> handles := (handles ex1)[a := resolved], active := waiting ex1, waiting := None \<rparr>)"

text \<open>
  Modelled from the spec: what runs when the caller awaits. The command on the queue is
  started; if its effect routine has settled, the outcome is recorded and the next command
  is taken up, and so on until the command on the queue has not settled, or none is left.
\<close>

function run_loop :: "CommandExecutor \<Rightarrow> CommandExecutor" where
  "run_loop ex =
     (case active ex of
        None \<Rightarrow> ex
      | Some a \<Rightarrow>
          (case execute (commands ex ! a) of
             pending \<Rightarrow> start a ex
           | p \<Rightarrow> run_loop (settle a p (start a ex))))"
  by pat_completeness auto
termination
proof (relation "measure (\<lambda>ex. (if active ex = None then 0 else 1) + (if waiting ex = None then 0 else 1))")
  show "wf (measure (\<lambda>ex. (if active ex = None then 0 else 1) + (if waiting ex = None then 0 else (1::nat))))"
    by simp
next
  fix ex :: CommandExecutor and a p
  assume "active ex = Some a"
  then show "(settle a p (start a ex), ex)
      \<in> measure (\<lambda>ex. (if active ex = None then 0 else 1) + (if waiting ex = None then 0 else 1))"
    by (simp add: settle_def start_def set_state_def Let_def)
next
  fix ex :: CommandExecutor and a p
  assume "active ex = Some a"
  then show "(settle a p (start a ex), ex)
      \<in> measure (\<lambda>ex. (if active ex = None then 0 else 1) + (if waiting ex = None then 0 else 1))"
    by (simp add: settle_def start_def set_state_def Let_def)
qed

text \<open>What the test does to the executor, one step after the other.\<close>

datatype Event =
    Enqueue Command_Class
  | Resolve nat
  | Reject nat
  | Await

fun step :: "Event \<Rightarrow> CommandExecutor \<Rightarrow> CommandExecutor" where
  "step (Enqueue k) ex = enqueue k ex"
| "step (Resolve c) ex = settle_delay c resolved ex"
| "step (Reject c) ex = settle_delay c rejected ex"
| "step Await ex = run_loop ex"

fun run :: "Event list \<Rightarrow> CommandExecutor \<Rightarrow> CommandExecutor" where
  "run [] ex = ex"
| "run (e # es) ex = run es (step e ex)"

definition states :: "CommandExecutor \<Rightarrow> State list" where
  "states ex = map state (commands ex)"

text \<open>
  What holds of every executor the test can reach. The command on the queue has not
  ended, the waiting command has not begun and waits behind another one, which was
  interrupted, and every command has its handle.
\<close>

definition slots_ok :: "CommandExecutor \<Rightarrow> bool" where
  "slots_ok ex =
     (length (handles ex) = length (commands ex) \<and>
      (\<forall>a. active ex = Some a \<longrightarrow>
         a < length (commands ex) \<and> state (commands ex ! a) \<noteq> Finished \<and>
         state (commands ex ! a) \<noteq> Cancelled) \<and>
      (\<forall>w. waiting ex = Some w \<longrightarrow>
         w < length (commands ex) \<and> state (commands ex ! w) = None' \<and>
         active ex \<noteq> None \<and> active ex \<noteq> Some w \<and>
         (\<forall>a. active ex = Some a \<longrightarrow> state (commands ex ! a) = Interrupted)))"

definition history_ok :: "CommandExecutor \<Rightarrow> bool" where
  "history_ok ex =
     (distinct (history ex) \<and>
      set (history ex) = {c. c < length (commands ex) \<and> state (commands ex ! c) = Finished})"

definition handles_ok :: "CommandExecutor \<Rightarrow> bool" where
  "handles_ok ex =
     (\<forall>c<length (commands ex).
        handles ex ! c \<noteq> rejected \<and>
        (state (commands ex ! c) = Finished \<or> state (commands ex ! c) = Cancelled \<or>
         state (commands ex ! c) = Interrupted
           \<longrightarrow> handles ex ! c = resolved))"

definition outcome_ok :: "CommandExecutor \<Rightarrow> bool" where
  "outcome_ok ex =
     (\<forall>c<length (commands ex).
        (state (commands ex ! c) = Finished \<longrightarrow> execute (commands ex ! c) = resolved) \<and>
        (state (commands ex ! c) = Cancelled \<longrightarrow> execute (commands ex ! c) = rejected))"

text \<open>
  One command on its own: it is enqueued as command \<open>c\<close>, its delay is settled as \<open>p\<close> (or
  left alone when \<open>p\<close> is \<open>pending\<close>), and the caller awaits. \<open>effect k p\<close> is how \<open>execute\<close>
  of a command of class \<open>k\<close> settles then.
\<close>

definition alone :: "Command_Class \<Rightarrow> Promise \<Rightarrow> nat \<Rightarrow> Event list" where
  "alone k p c =
     Enqueue k #
     (case p of pending \<Rightarrow> [] | resolved \<Rightarrow> [Resolve c] | rejected \<Rightarrow> [Reject c]) @ [Await]"

definition effect :: "Command_Class \<Rightarrow> Promise \<Rightarrow> Promise" where
  "effect k p = execute \<lparr> klass = k, state = None', delay = p \<rparr>"

text \<open>
  Every command is still waiting or on the queue when the next one is enqueued.
\<close>

fun chained :: "CommandExecutor \<Rightarrow> Event list \<Rightarrow> bool" where
  "chained ex [] = True"
| "chained ex (Enqueue k # es) =
     ((commands ex = [] \<or> active ex = Some (length (commands ex) - 1) \<or>
       waiting ex = Some (length (commands ex) - 1)) \<and>
      chained (enqueue k ex) es)"
| "chained ex (e # es) = chained (step e ex) es"

definition chain_inv :: "CommandExecutor \<Rightarrow> bool" where
  "chain_inv ex =
     (slots_ok ex \<and>
      (\<forall>c. Suc c < length (commands ex) \<longrightarrow>
         state (commands ex ! c) = Interrupted \<or>
         (state (commands ex ! c) = None' \<and> active ex \<noteq> Some c)) \<and>
      (\<forall>w. waiting ex = Some w \<longrightarrow> Suc w = length (commands ex)))"

text \<open>The scenario of the test 'enqueue cancels active commands and executes the most recent'.\<close>

definition in_succession :: "Event list" where
  "in_succession = [Enqueue DelayedCommand, Enqueue DelayedCommand, Enqueue DelayedCommand]"

definition then_settled :: "Event list" where
  "then_settled = in_succession @ [Reject 0, Resolve 1, Resolve 2, Await]"

text \<open>The executor is done with a command: it has ended and its handle has resolved.\<close>

definition done_with :: "nat \<Rightarrow> CommandExecutor \<Rightarrow> bool" where
  "done_with a ex =
     (slots_ok ex \<and> a < length (commands ex) \<and> active ex \<noteq> Some a \<and>
      handles ex ! a = resolved \<and>
      (state (commands ex ! a) = Finished \<or> state (commands ex ! a) = Cancelled \<or>
       state (commands ex ! a) = Interrupted))"

definition first_rejected :: "Event list" where
  "first_rejected = in_succession @ [Reject 0]"

section \<open>Properties of the geometry database\<close>

subsection \<open>Lookups\<close>

text \<open>
  C10. \<open>lookupItemById\<close>, \<open>lookupTopologyItemById\<close> and \<open>lookupControlPointById\<close> throw
  exactly when the id is absent from their map, and return the stored record when it is
  present. They are functions of the database alone and return no database: the source
  assigns nothing in them.
\<close>

theorem lookups_fail_fast:
  "((\<exists>e. lookupItemById db i = Inl e) \<longleftrightarrow> geometryModel db i = None) \<and>
   (lookupItemById db i = Inr r \<longleftrightarrow> geometryModel db i = Some r) \<and>
   ((\<exists>e. lookupTopologyItemById db k = Inl e) \<longleftrightarrow> topologyModel db k = None) \<and>
   (lookupTopologyItemById db k = Inr t \<longleftrightarrow> topologyModel db k = Some t) \<and>
   ((\<exists>e. lookupControlPointById db k = Inl e) \<longleftrightarrow> controlPointModel db k = None) \<and>
   (lookupControlPointById db k = Inr c \<longleftrightarrow> controlPointModel db k = Some c)"
  by (simp add: lookupItemById_def lookupTopologyItemById_def lookupControlPointById_def
      split: option.splits)

subsection \<open>Counting below the limit of exact doubles\<close>

lemma to_double_exact: "\<bar>y\<bar> \<le> 2 ^ 53 \<Longrightarrow> to_double y = y"
  by (simp add: to_double_def)

lemma plus_one_exact: "- (2 ^ 53) \<le> x \<Longrightarrow> x < 2 ^ 53 \<Longrightarrow> plus_one x = x + 1"
  by (simp add: plus_one_def to_double_exact)

lemma minus_one_exact: "- (2 ^ 53) < x \<Longrightarrow> x \<le> 2 ^ 53 \<Longrightarrow> minus_one x = x - 1"
  by (simp add: minus_one_def to_double_exact)

subsection \<open>What the operations do to the indices and the counters\<close>

lemma insertItem_indices:
  "version2name (snd (insertItem E model agent name db)) = version2name db"
  "name2version (snd (insertItem E model agent name db)) = name2version db"
  "negativeCounter (snd (insertItem E model agent name db)) = negativeCounter db"
  "positiveCounter (snd (insertItem E model agent name db)) =
     (case name of None \<Rightarrow> plus_one (positiveCounter db)
      | Some n \<Rightarrow> max (positiveCounter db) (plus_one n))"
  by (simp_all add: insertItem_def Let_def split: option.splits prod.splits)

lemma insertItem_name:
  "fst (insertItem E model agent name db) = Inr view \<Longrightarrow>
   simpleName view = (case name of None \<Rightarrow> positiveCounter db | Some n \<Rightarrow> n)"
  by (auto simp add: insertItem_def Let_def split: option.splits prod.splits)

lemma removeItem'_indices:
  "version2name (removeItem' view agent db) = version2name db"
  "name2version (removeItem' view agent db) = name2version db"
  "positiveCounter (removeItem' view agent db) = positiveCounter db"
  "negativeCounter (removeItem' view agent db) = negativeCounter db"
  by (simp_all add: removeItem'_def)

lemma addTemporaryItem_indices:
  "version2name (snd (addTemporaryItem E model into db)) = version2name db"
  "name2version (snd (addTemporaryItem E model into db)) = name2version db"
  "positiveCounter (snd (addTemporaryItem E model into db)) = positiveCounter db"
  "negativeCounter (snd (addTemporaryItem E model into db)) = minus_one (negativeCounter db)"
  by (simp_all add: addTemporaryItem_def Let_def split: option.splits)

text \<open>\<open>addItem\<close>, \<open>replaceItem\<close> and \<open>removeItem\<close> seen from the indices alone.\<close>

lemma addItem_cases:
  obtains (rejected) e where
      "fst (addItem E model agent name db) = Inl e"
      "version2name (snd (addItem E model agent name db)) = version2name db"
      "name2version (snd (addItem E model agent name db)) = name2version db"
  | (added) view where
      "fst (addItem E model agent name db) = Inr view"
      "simpleName view = (case name of None \<Rightarrow> positiveCounter db | Some n \<Rightarrow> n)"
      "version2name (snd (addItem E model agent name db)) =
         (version2name db)(simpleName view \<mapsto> Some (simpleName view))"
      "name2version (snd (addItem E model agent name db)) =
         (name2version db)(Some (simpleName view) \<mapsto> simpleName view)"
proof -
  obtain r db1 where eq: "insertItem E model agent name db = (r, db1)"
    by (cases "insertItem E model agent name db")
  have db1: "version2name db1 = version2name db" "name2version db1 = name2version db"
    using insertItem_indices(1,2) [of E model agent name db] eq by simp_all
  show ?thesis
  proof (cases r)
    case (Inl e)
    with eq db1 show ?thesis
      using rejected [of e] by (simp add: addItem_def)
  next
    case (Inr view)
    with eq have "simpleName view = (case name of None \<Rightarrow> positiveCounter db | Some n \<Rightarrow> n)"
      using insertItem_name [of E model agent name db view] by simp
    with eq db1 Inr show ?thesis
      using added [of view] by (simp add: addItem_def)
  qed
qed

lemma addItem_counters:
  "positiveCounter (snd (addItem E model agent name db)) =
     (case name of None \<Rightarrow> plus_one (positiveCounter db)
      | Some n \<Rightarrow> max (positiveCounter db) (plus_one n))"
  "negativeCounter (snd (addItem E model agent name db)) = negativeCounter db"
proof -
  obtain r db1 where eq: "insertItem E model agent name db = (r, db1)"
    by (cases "insertItem E model agent name db")
  have "positiveCounter (snd (addItem E model agent name db)) = positiveCounter db1 \<and>
        negativeCounter (snd (addItem E model agent name db)) = negativeCounter db1"
    using eq by (cases r) (simp_all add: addItem_def)
  then show "positiveCounter (snd (addItem E model agent name db)) =
     (case name of None \<Rightarrow> plus_one (positiveCounter db)
      | Some n \<Rightarrow> max (positiveCounter db) (plus_one n))"
    and "negativeCounter (snd (addItem E model agent name db)) = negativeCounter db"
    using insertItem_indices(3,4) [of E model agent name db] eq by simp_all
qed

lemma replaceItem_cases:
  obtains (rejected) e where
      "fst (replaceItem E from model db) = Inl e"
      "version2name (snd (replaceItem E from model db)) = version2name db"
      "name2version (snd (replaceItem E from model db)) = name2version db"
  | (replaced) to where
      "fst (replaceItem E from model db) = Inr to"
      "simpleName to = positiveCounter db"
      "version2name (snd (replaceItem E from model db)) =
         ((version2name db)(simpleName from := None))
           (simpleName to \<mapsto> get (version2name db) (simpleName from))"
      "name2version (snd (replaceItem E from model db)) =
         (name2version db)(get (version2name db) (simpleName from) \<mapsto> simpleName to)"
proof -
  obtain r db1 where eq: "insertItem E model user None db = (r, db1)"
    by (cases "insertItem E model user None db")
  have db1: "version2name db1 = version2name db" "name2version db1 = name2version db"
    using insertItem_indices(1,2) [of E model user None db] eq by simp_all
  show ?thesis
  proof (cases r)
    case (Inl e)
    with eq db1 show ?thesis
      using rejected [of e] by (simp add: replaceItem_def)
  next
    case (Inr to)
    with eq have "simpleName to = positiveCounter db"
      using insertItem_name [of E model user None db to] by simp
    with eq db1 Inr show ?thesis
      using replaced [of to] by (simp add: replaceItem_def Let_def removeItem'_indices)
  qed
qed

lemma replaceItem_counters:
  "positiveCounter (snd (replaceItem E from model db)) = plus_one (positiveCounter db)"
  "negativeCounter (snd (replaceItem E from model db)) = negativeCounter db"
proof -
  obtain r db1 where eq: "insertItem E model user None db = (r, db1)"
    by (cases "insertItem E model user None db")
  have "positiveCounter (snd (replaceItem E from model db)) = positiveCounter db1 \<and>
        negativeCounter (snd (replaceItem E from model db)) = negativeCounter db1"
    using eq by (cases r) (simp_all add: replaceItem_def Let_def removeItem'_indices)
  then show "positiveCounter (snd (replaceItem E from model db)) = plus_one (positiveCounter db)"
    and "negativeCounter (snd (replaceItem E from model db)) = negativeCounter db"
    using insertItem_indices(3,4) [of E model user None db] eq by simp_all
qed

lemma removeItem_indices:
  "version2name (removeItem view agent db) = (version2name db)(simpleName view := None)"
  "name2version (removeItem view agent db) =
     (name2version db)(get (version2name db) (simpleName view) := None)"
  "positiveCounter (removeItem view agent db) = positiveCounter db"
  "negativeCounter (removeItem view agent db) = negativeCounter db"
  by (simp_all add: removeItem_def Let_def removeItem'_indices)

lemma perform_snd:
  "snd (perform E (AddItem model agent name) db) = snd (addItem E model agent name db)"
  "snd (perform E (ReplaceItem from model) db) = snd (replaceItem E from model db)"
  "snd (perform E (RemoveItem view agent) db) = removeItem view agent db"
  "snd (perform E (AddTemporaryItem model) db) = snd (addTemporaryItem E model True db)"
  "snd (perform E (AddPhantom model) db) = snd (addTemporaryItem E model False db)"
  by (simp_all add: split_beta addPhantom_def)

lemma perform_fst:
  "fst (perform E (AddItem model agent name) db) = Some (fst (addItem E model agent name db))"
  "fst (perform E (ReplaceItem from model) db) = Some (fst (replaceItem E from model db))"
  "fst (perform E (RemoveItem view agent) db) = None"
  "fst (perform E (AddTemporaryItem model) db) = Some (fst (addTemporaryItem E model True db))"
  "fst (perform E (AddPhantom model) db) = Some (fst (addTemporaryItem E model False db))"
  by (simp_all add: split_beta addPhantom_def)

subsection \<open>The two indices after an explicit name\<close>

lemma plain_insertItem:
  "insertItem plain_External a_solid agent name db =
     (let k = (case name of None \<Rightarrow> positiveCounter db | Some n \<Rightarrow> n) in
      (Inr (view_named k),
       db\<lparr> positiveCounter :=
             (case name of None \<Rightarrow> plus_one (positiveCounter db)
              | Some n \<Rightarrow> max (positiveCounter db) (plus_one n)),
           geometryModel := (geometryModel db)(k \<mapsto> (view_named k, a_solid)),
           automatics := (if agent = automatic then insert k (automatics db) else automatics db),
           signals := signals db @ [sceneGraphChanged, objectAdded (view_named k) agent] \<rparr>))"
  by (simp add: insertItem_def meshes_def precisionAndDistanceFor_def object2mesh_def
      plain_External_def a_solid_def mesh_precision_distance_def plain_view_def view_named_def
      Let_def)

lemma small_steps:
  "plus_one 1 = 2" "plus_one 2 = 3" "plus_one 3 = 4" "plus_one 5 = 6" "plus_one 6 = 7"
  "plus_one 7 = 8" "minus_one (- 1) = - 2"
  by (simp_all add: plus_one_def minus_one_def to_double_def)

lemmas plain_run =
  addItem_def replaceItem_def removeItem_def removeItem'_def removeTopologyItems_def
  removeControlPoints_def plain_insertItem new_GeometryDatabase_def get_def view_named_def
  plain_view_def Let_def small_steps

text \<open>
  C6. The two indices are not inverse to each other, and not of the same size, after every
  sequence of operations: add an item (version 1, name 1), replace it (version 2, name
  1), then add an item under the explicit name 1. Every lookup finds its version, yet
  \<open>version2name\<close> now holds two entries, \<open>2 \<mapsto> 1\<close> and \<open>1 \<mapsto> 1\<close>, and \<open>name2version\<close>
  holds one, \<open>1 \<mapsto> 1\<close>: the assertion of \<open>validate\<close>, that the maps have the same size,
  fails.
\<close>

theorem colliding_name_breaks_indices:
  "all_along lookups_exist plain_External colliding_name new_GeometryDatabase \<and>
   \<not> inverses (exec plain_External colliding_name new_GeometryDatabase) \<and>
   card (dom (version2name (exec plain_External colliding_name new_GeometryDatabase))) = 2 \<and>
   card (dom (name2version (exec plain_External colliding_name new_GeometryDatabase))) = 1"
proof -
  let ?db = "exec plain_External colliding_name new_GeometryDatabase"
  have v: "version2name ?db = [2 \<mapsto> Some 1, 1 \<mapsto> Some 1]"
    by (simp add: colliding_name_def plain_run)
  have n: "name2version ?db = [Some 1 \<mapsto> 1]"
    by (simp add: colliding_name_def plain_run)
  have "all_along lookups_exist plain_External colliding_name new_GeometryDatabase"
    by (simp add: colliding_name_def plain_run)
  moreover have "\<not> inverses ?db"
  proof
    assume "inverses ?db"
    then have "version2name ?db 2 = Some (Some 1) \<longleftrightarrow> name2version ?db (Some 1) = Some 2"
      unfolding inverses_def by blast
    then show False by (simp add: v n)
  qed
  moreover have "card (dom (version2name ?db)) = 2" by (simp add: v)
  moreover have "card (dom (name2version ?db)) = 1" by (simp add: n)
  ultimately show ?thesis by blast
qed

subsection \<open>Replacing an item\<close>

lemma positive_steps:
  assumes "0 < positiveCounter db" "in_range db op"
  shows "positiveCounter (snd (perform E op db)) =
     (case op of
        AddItem model agent None \<Rightarrow> positiveCounter db + 1
      | AddItem model agent (Some n) \<Rightarrow> max (positiveCounter db) (n + 1)
      | ReplaceItem from model \<Rightarrow> positiveCounter db + 1
      | _ \<Rightarrow> positiveCounter db)"
proof (cases op)
  case (AddItem model agent name)
  with assms show ?thesis
    by (cases name)
       (simp_all add: perform_snd addItem_counters plus_one_exact del: perform.simps)
next
  case (ReplaceItem "from" model)
  with assms show ?thesis
    by (simp add: perform_snd replaceItem_counters plus_one_exact del: perform.simps)
next
  case (RemoveItem view agent)
  then show ?thesis by (simp add: removeItem_indices)
next
  case (AddTemporaryItem model)
  then show ?thesis
    by (simp add: perform_snd addTemporaryItem_indices del: perform.simps)
next
  case (AddPhantom model)
  then show ?thesis
    by (simp add: perform_snd addTemporaryItem_indices del: perform.simps)
qed

lemma perform_counters:
  assumes "0 < positiveCounter db" "in_range db op"
  shows "positiveCounter db \<le> positiveCounter (snd (perform E op db))"
  unfolding positive_steps [OF assms]
  by (cases op) (simp_all split: option.splits)

lemma versions_below_new: "versions_below new_GeometryDatabase"
  by (simp add: versions_below_def new_GeometryDatabase_def)

lemma perform_versions_below:
  assumes "versions_below db" "in_range db op"
  shows "versions_below (snd (perform E op db))"
proof -
  from assms(1) have pos: "0 < positiveCounter db"
    and below: "\<And>v. version2name db v \<noteq> None \<Longrightarrow> v < positiveCounter db"
    by (simp_all add: versions_below_def)
  note step = positive_steps [OF pos assms(2), of E]
  have pos': "0 < positiveCounter (snd (perform E op db))"
    using perform_counters [OF pos assms(2), of E] pos by linarith
  have "v < positiveCounter (snd (perform E op db))"
    if v: "version2name (snd (perform E op db)) v \<noteq> None" for v
  proof (cases op)
    case (AddItem model agent name)
    show ?thesis
    proof (cases rule: addItem_cases [of E model agent name db])
      case (rejected e)
      with v AddItem have "v < positiveCounter db"
        using below [of v] by (simp add: perform_snd del: perform.simps)
      with perform_counters [OF pos assms(2), of E] show ?thesis by linarith
    next
      case (added view)
      show ?thesis
      proof (cases "v = simpleName view")
        case True
        with added(2) AddItem step show ?thesis
          by (cases name) simp_all
      next
        case False
        with v AddItem added(3) have "v < positiveCounter db"
          using below [of v] by (simp add: perform_snd del: perform.simps)
        with perform_counters [OF pos assms(2), of E] show ?thesis by linarith
      qed
    qed
  next
    case (ReplaceItem "from" model)
    show ?thesis
    proof (cases rule: replaceItem_cases [of E "from" model db])
      case (rejected e)
      with v ReplaceItem have "v < positiveCounter db"
        using below [of v] by (simp add: perform_snd del: perform.simps)
      with perform_counters [OF pos assms(2), of E] show ?thesis by linarith
    next
      case (replaced to)
      show ?thesis
      proof (cases "v = simpleName to")
        case True
        with replaced(2) ReplaceItem step show ?thesis by simp
      next
        case False
        with v ReplaceItem replaced(3) have "version2name db v \<noteq> None"
          by (simp add: perform_snd del: perform.simps split: if_splits)
        then have "v < positiveCounter db" by (rule below)
        with perform_counters [OF pos assms(2), of E] show ?thesis by linarith
      qed
    qed
  next
    case (RemoveItem view agent)
    with v have "version2name db v \<noteq> None"
      by (simp add: removeItem_indices split: if_splits)
    then have "v < positiveCounter db" by (rule below)
    with RemoveItem show ?thesis by (simp add: removeItem_indices)
  next
    case (AddTemporaryItem model)
    with v below [of v] show ?thesis
      by (simp add: perform_snd addTemporaryItem_indices del: perform.simps)
  next
    case (AddPhantom model)
    with v below [of v] show ?thesis
      by (simp add: perform_snd addTemporaryItem_indices del: perform.simps)
  qed
  with pos' show ?thesis by (simp add: versions_below_def)
qed

lemma exec_versions_below:
  "versions_below db \<Longrightarrow> all_along in_range E ops db \<Longrightarrow> versions_below (exec E ops db)"
  by (induction ops arbitrary: db) (simp_all add: perform_versions_below del: perform.simps)

lemma replaceItem_geometry:
  assumes "replaceItem E from model db = (Inr to, db')" "simpleName from \<noteq> simpleName to"
  shows "geometryModel db' (simpleName to) = Some (to, model)"
    and "geometryModel db' (simpleName from) = None"
proof -
  obtain r db1 where eq: "insertItem E model user None db = (r, db1)"
    by (cases "insertItem E model user None db")
  with assms(1) have r: "r = Inr to"
    by (cases r) (simp_all add: replaceItem_def Let_def)
  from eq r have g: "geometryModel db1 (simpleName to) = Some (to, model)"
    by (auto simp add: insertItem_def Let_def split: option.splits prod.splits)
  from assms(1) eq r
  have db': "geometryModel db' = (geometryModel db1)(simpleName from := None)"
    by (auto simp add: replaceItem_def Let_def removeItem'_def)
  show "geometryModel db' (simpleName to) = Some (to, model)"
    using g assms(2) by (simp add: db')
  show "geometryModel db' (simpleName from) = None"
    by (simp add: db')
qed


text \<open>
  C8, as amended. Let the database be reached from the empty one by operations that stay
  in the range where the counter counts exactly: every id taken from the counter and every
  explicit name is below \<open>2^53\<close>. Let version \<open>v\<close> be mapped to name \<open>n\<close>. A \<open>replaceItem\<close>
  of the view with version \<open>v\<close> that returns the view \<open>to\<close> has stored the replacement under
  a new version, different from \<open>v\<close> and greater than it, has removed \<open>v\<close> from the
  geometry model and from \<open>version2name\<close>, and has left \<open>version2name\<close> mapping the new
  version to \<open>n\<close> and \<open>name2version\<close> mapping \<open>n\<close> to the new version.
\<close>

theorem replaceItem_preserves_name:
  assumes "all_along in_range E ops new_GeometryDatabase"
    and "db = exec E ops new_GeometryDatabase"
    and "version2name db (simpleName from) = Some (Some n)"
    and "replaceItem E from model db = (Inr to, db')"
  shows "simpleName to \<noteq> simpleName from \<and> simpleName from < simpleName to \<and>
         geometryModel db' (simpleName to) = Some (to, model) \<and>
         geometryModel db' (simpleName from) = None \<and>
         version2name db' (simpleName from) = None \<and>
         version2name db' (simpleName to) = Some (Some n) \<and>
         name2version db' (Some n) = Some (simpleName to)"
proof -
  have "versions_below db"
    unfolding assms(2) using versions_below_new assms(1) by (rule exec_versions_below)
  with assms(3) have below: "simpleName from < positiveCounter db"
    by (simp add: versions_below_def)
  have g: "get (version2name db) (simpleName from) = Some n"
    using assms(3) by (simp add: get_def)
  show ?thesis
  proof (cases rule: replaceItem_cases [of E "from" model db])
    case (rejected e)
    with assms(4) show ?thesis by simp
  next
    case (replaced to')
    with assms(4) have to: "to' = to" by simp
    from replaced(2) below to have lt: "simpleName from < simpleName to" by simp
    with replaceItem_geometry [OF assms(4)]
    have "geometryModel db' (simpleName to) = Some (to, model)"
      "geometryModel db' (simpleName from) = None" by simp_all
    with lt replaced(3,4) assms(4) g to show ?thesis by simp
  qed
qed

theorem replaceItem_preserves_name_witness:
  "all_along in_range plain_External [AddItem a_solid user None] new_GeometryDatabase \<and>
   version2name (exec plain_External [AddItem a_solid user None] new_GeometryDatabase)
     (simpleName (view_named 1)) = Some (Some 1) \<and>
   fst (replaceItem plain_External (view_named 1) a_solid
     (exec plain_External [AddItem a_solid user None] new_GeometryDatabase)) = Inr (view_named 2) \<and>
   simpleName (view_named 1) < simpleName (view_named 2) \<and>
   version2name (snd (replaceItem plain_External (view_named 1) a_solid
     (exec plain_External [AddItem a_solid user None] new_GeometryDatabase)))
     (simpleName (view_named 1)) = None \<and>
   version2name (snd (replaceItem plain_External (view_named 1) a_solid
     (exec plain_External [AddItem a_solid user None] new_GeometryDatabase)))
     (simpleName (view_named 2)) = Some (Some 1) \<and>
   name2version (snd (replaceItem plain_External (view_named 1) a_solid
     (exec plain_External [AddItem a_solid user None] new_GeometryDatabase)))
     (Some 1) = Some (simpleName (view_named 2))"
proof -
  let ?db = "exec plain_External [AddItem a_solid user None] new_GeometryDatabase"
  let ?r = "replaceItem plain_External (view_named 1) a_solid ?db"
  have h0: "all_along in_range plain_External [AddItem a_solid user None] new_GeometryDatabase"
    by (simp add: new_GeometryDatabase_def)
  have h1: "version2name ?db (simpleName (view_named 1)) = Some (Some 1)"
    by (simp add: plain_run)
  have h2: "fst ?r = Inr (view_named 2)"
    by (simp add: plain_run)
  then have h3: "?r = (Inr (view_named 2), snd ?r)"
    by (simp add: prod_eq_iff)
  from replaceItem_preserves_name [OF h0 refl h1 h3] h0 h1 h2 show ?thesis
    by simp
qed

text \<open>
  C8 as stated fails at the limit of exact doubles. After \<open>addItem\<close> under the explicit
  name \<open>2^53\<close> the counter is \<open>max 1 (2^53 + 1)\<close>, which is \<open>2^53\<close> in doubles. A
  \<open>replaceItem\<close> of that item takes its new version from the counter, \<open>2^53\<close> again: the
  new version is the old one, the replacement is deleted from the geometry model with the
  item it replaces, and \<open>version2name\<close> still holds the version.
\<close>

lemma at_the_limit: "plus_one 9007199254740992 = 9007199254740992"
  by (simp add: plus_one_def to_double_def bit_length.simps Let_def)

theorem replaceItem_counterexample:
  "version2name (exec plain_External named_at_the_limit new_GeometryDatabase)
     (simpleName (view_named 9007199254740992)) = Some (Some 9007199254740992) \<and>
   fst (replaceItem plain_External (view_named 9007199254740992) a_solid
     (exec plain_External named_at_the_limit new_GeometryDatabase))
     = Inr (view_named 9007199254740992) \<and>
   geometryModel (snd (replaceItem plain_External (view_named 9007199254740992) a_solid
     (exec plain_External named_at_the_limit new_GeometryDatabase))) 9007199254740992 = None \<and>
   version2name (snd (replaceItem plain_External (view_named 9007199254740992) a_solid
     (exec plain_External named_at_the_limit new_GeometryDatabase))) 9007199254740992
     = Some (Some 9007199254740992)"
  by (simp add: named_at_the_limit_def plain_run at_the_limit)

subsection \<open>Ids of real and of temporary items\<close>

lemma exec_counters:
  "0 < positiveCounter db \<Longrightarrow> all_along in_range E ops db \<Longrightarrow>
   positiveCounter db \<le> positiveCounter (exec E ops db)"
proof (induction ops arbitrary: db)
  case Nil
  then show ?case by simp
next
  case (Cons op ops)
  from Cons.prems have r: "in_range db op" and rest: "all_along in_range E ops (snd (perform E op db))"
    by simp_all
  from perform_counters [OF Cons.prems(1) r, of E] Cons.prems(1)
  have "0 < positiveCounter (snd (perform E op db))" by linarith
  from Cons.IH [OF this rest] perform_counters [OF Cons.prems(1) r, of E]
  show ?case by (simp del: perform.simps)
qed

lemma perform_real_below:
  assumes "fst (perform E op db) = Some (Inr w)" "is_real op"
    and "0 < positiveCounter db" "in_range db op"
  shows "simpleName w < positiveCounter (snd (perform E op db))"
proof (cases op)
  case (AddItem model agent name)
  show ?thesis
  proof (cases rule: addItem_cases [of E model agent name db])
    case (rejected e)
    with assms AddItem show ?thesis by (simp add: perform_fst del: perform.simps)
  next
    case (added view)
    with assms(1) AddItem have "w = view" by (simp add: perform_fst del: perform.simps)
    with added(2) AddItem positive_steps [OF assms(3,4), of E] show ?thesis
      by (cases name) simp_all
  qed
next
  case (ReplaceItem "from" model)
  show ?thesis
  proof (cases rule: replaceItem_cases [of E "from" model db])
    case (rejected e)
    with assms ReplaceItem show ?thesis by (simp add: perform_fst del: perform.simps)
  next
    case (replaced to)
    with assms(1) ReplaceItem have "w = to" by (simp add: perform_fst del: perform.simps)
    with replaced(2) ReplaceItem positive_steps [OF assms(3,4), of E] show ?thesis
      by simp
  qed
qed (use assms in simp_all)

lemma results_below:
  "0 < positiveCounter db \<Longrightarrow> all_along in_range E ops db \<Longrightarrow>
   j < length ops \<Longrightarrow> results E ops db ! j = Some (Inr w) \<Longrightarrow> is_real (ops ! j) \<Longrightarrow>
   simpleName w < positiveCounter (exec E ops db)"
proof (induction ops arbitrary: db j)
  case Nil
  then show ?case by simp
next
  case (Cons op ops)
  from Cons.prems(2) have r: "in_range db op"
    and rest: "all_along in_range E ops (snd (perform E op db))"
    by simp_all
  from perform_counters [OF Cons.prems(1) r, of E] Cons.prems(1)
  have pos': "0 < positiveCounter (snd (perform E op db))" by linarith
  show ?case
  proof (cases j)
    case 0
    with Cons.prems have "simpleName w < positiveCounter (snd (perform E op db))"
      using perform_real_below [of E op db w] r by (simp del: perform.simps)
    also have "\<dots> \<le> positiveCounter (exec E ops (snd (perform E op db)))"
      using pos' rest by (rule exec_counters)
    finally show ?thesis by (simp del: perform.simps)
  next
    case (Suc i)
    with Cons.prems Cons.IH [OF pos' rest, of i] show ?thesis
      by (simp del: perform.simps)
  qed
qed

lemma positive_only_new: "positive_only new_GeometryDatabase"
  by (simp add: positive_only_def new_GeometryDatabase_def)

lemma perform_positive_only:
  assumes "positive_only db" "0 < positiveCounter db" "explicit_positive db op"
  shows "positive_only (snd (perform E op db))"
proof (cases op)
  case (AddItem model agent name)
  show ?thesis
  proof (cases rule: addItem_cases [of E model agent name db])
    case (rejected e)
    with assms AddItem show ?thesis
      by (simp add: positive_only_def perform_snd del: perform.simps)
  next
    case (added view)
    from added(2) assms(2,3) AddItem have "0 < simpleName view"
      by (cases name) simp_all
    with assms(1) AddItem added(3,4) show ?thesis
      by (auto simp add: positive_only_def perform_snd simp del: perform.simps split: if_splits)
  qed
next
  case (ReplaceItem "from" model)
  show ?thesis
  proof (cases rule: replaceItem_cases [of E "from" model db])
    case (rejected e)
    with assms ReplaceItem show ?thesis
      by (simp add: positive_only_def perform_snd del: perform.simps)
  next
    case (replaced to)
    have g: "0 < m" if "get (version2name db) (simpleName from) = Some m" for m
      using that assms(1) unfolding positive_only_def get_def
      by (cases "version2name db (simpleName from)") auto
    from replaced(2) assms(2) have "0 < simpleName to" by simp
    with assms(1) ReplaceItem replaced(3,4) g show ?thesis
      by (auto simp add: positive_only_def perform_snd simp del: perform.simps split: if_splits)
  qed
next
  case (RemoveItem view agent)
  with assms(1) show ?thesis
    by (auto simp add: positive_only_def removeItem_indices split: if_splits)
next
  case (AddTemporaryItem model)
  with assms show ?thesis
    by (simp add: positive_only_def addTemporaryItem_indices perform_snd del: perform.simps)
next
  case (AddPhantom model)
  with assms show ?thesis
    by (simp add: positive_only_def addTemporaryItem_indices perform_snd del: perform.simps)
qed

lemma exec_positive_only:
  "positive_only db \<Longrightarrow> 0 < positiveCounter db \<Longrightarrow> all_along in_range E ops db \<Longrightarrow>
   all_along explicit_positive E ops db \<Longrightarrow> positive_only (exec E ops db)"
proof (induction ops arbitrary: db)
  case Nil
  then show ?case by simp
next
  case (Cons op ops)
  from Cons.prems(3) have r: "in_range db op" by simp
  have "0 < positiveCounter (snd (perform E op db))"
    using Cons.prems(2) perform_counters [OF Cons.prems(2) r, of E] by linarith
  with Cons show ?case
    by (simp add: perform_positive_only del: perform.simps)
qed

lemma addTemporaryItem_name:
  assumes "builds_named E" "fst (addTemporaryItem E model into db) = Inr view"
  shows "simpleName view = negativeCounter db"
  using assms by (auto simp add: addTemporaryItem_def builds_named_def Let_def split: option.splits)

lemma negative_counter:
  "negativeCounter db < 0 \<Longrightarrow> all_along in_range E ops db \<Longrightarrow>
   negativeCounter (exec E ops db) < 0"
proof (induction ops arbitrary: db)
  case Nil
  then show ?case by simp
next
  case (Cons op ops)
  have "negativeCounter (snd (perform E op db)) < 0"
  proof (cases op)
    case (AddItem model agent name)
    with Cons.prems(1) show ?thesis
      by (simp add: perform_snd addItem_counters del: perform.simps)
  next
    case (ReplaceItem "from" model)
    with Cons.prems(1) show ?thesis
      by (simp add: perform_snd replaceItem_counters del: perform.simps)
  next
    case (RemoveItem view agent)
    with Cons.prems(1) show ?thesis by (simp add: removeItem_indices)
  next
    case (AddTemporaryItem model)
    with Cons.prems show ?thesis
      by (simp add: perform_snd addTemporaryItem_indices minus_one_exact del: perform.simps)
  next
    case (AddPhantom model)
    with Cons.prems show ?thesis
      by (simp add: perform_snd addTemporaryItem_indices minus_one_exact del: perform.simps)
  qed
  with Cons show ?case by (simp del: perform.simps)
qed

text \<open>
  C9, as amended. Let the database be reached from the empty one by operations that stay
  in the range where the counters count exactly (ids and explicit names short of \<open>2^53\<close>).
  An item added by \<open>addItem\<close> without an explicit name receives a positive id that is
  strictly greater than the id of every real item added or replaced before, explicitly
  named or not. An item added under an explicit positive name receives that name as its
  id. The id that \<open>addTemporaryItem\<close> and \<open>addPhantom\<close> take for a temporary item or a
  phantom is negative, the view carries it when the builder names a view by the id it is
  given, and both leave the two indices as they were. If every explicit name passed to
  \<open>addItem\<close> was positive, both indices hold positive versions and names only.
\<close>

theorem ids_from_counters:
  assumes "all_along in_range E ops new_GeometryDatabase"
    and "db = exec E ops new_GeometryDatabase"
  shows
    "(addItem E model agent None db = (Inr view, db') \<longrightarrow>
        0 < simpleName view \<and>
        (\<forall>j<length ops. \<forall>w. is_real (ops ! j) \<and>
            results E ops new_GeometryDatabase ! j = Some (Inr w) \<longrightarrow>
            simpleName w < simpleName view)) \<and>
     (0 < k \<and> addItem E model agent (Some k) db = (Inr view, db') \<longrightarrow> simpleName view = k) \<and>
     negativeCounter db < 0 \<and>
     version2name (snd (addTemporaryItem E model into db)) = version2name db \<and>
     name2version (snd (addTemporaryItem E model into db)) = name2version db \<and>
     version2name (snd (addPhantom E model db)) = version2name db \<and>
     name2version (snd (addPhantom E model db)) = name2version db \<and>
     (builds_named E \<and> addTemporaryItem E model into db = (Inr view, db') \<longrightarrow>
        simpleName view = negativeCounter db) \<and>
     (builds_named E \<and> addPhantom E model db = (Inr view, db') \<longrightarrow>
        simpleName view = negativeCounter db) \<and>
     (all_along explicit_positive E ops new_GeometryDatabase \<longrightarrow> positive_only db)"
proof -
  have start: "0 < positiveCounter new_GeometryDatabase" "negativeCounter new_GeometryDatabase < 0"
    by (simp_all add: new_GeometryDatabase_def)
  have pos: "0 < positiveCounter db"
    unfolding assms(2) using exec_counters [OF start(1) assms(1)] start(1) by linarith
  have neg: "negativeCounter db < 0"
    unfolding assms(2) using start(2) assms(1) by (rule negative_counter)
  have counter: "addItem E model agent None db = (Inr view, db') \<Longrightarrow>
      simpleName view = positiveCounter db"
    by (cases rule: addItem_cases [of E model agent None db]) simp_all
  have explicit: "addItem E model agent (Some k) db = (Inr view, db') \<Longrightarrow> simpleName view = k"
    by (cases rule: addItem_cases [of E model agent "Some k" db]) simp_all
  have earlier: "simpleName w < positiveCounter db"
    if "j < length ops" "is_real (ops ! j)"
      "results E ops new_GeometryDatabase ! j = Some (Inr w)" for j w
    unfolding assms(2) using start(1) assms(1) that(1,3,2) by (rule results_below)
  have temp: "simpleName view = negativeCounter db"
    if "builds_named E" "addTemporaryItem E model b db = (Inr view, db')" for b
    using that addTemporaryItem_name [of E model b db view] by simp
  have "positive_only db" if "all_along explicit_positive E ops new_GeometryDatabase"
    unfolding assms(2) using positive_only_new start(1) assms(1) that
    by (rule exec_positive_only)
  with pos neg counter explicit earlier temp show ?thesis
    by (auto simp add: addPhantom_def addTemporaryItem_indices)
qed

lemma plain_builds_named: "builds_named plain_External"
  by (simp add: builds_named_def plain_External_def)

lemma plain_addTemporaryItem:
  "fst (addTemporaryItem plain_External a_solid into db) = Inr (view_named (negativeCounter db))"
  by (simp add: addTemporaryItem_def meshes_def precisionAndDistanceFor_def object2mesh_def
      plain_External_def a_solid_def temporary_precision_distance_def plain_view_def
      view_named_def Let_def)

theorem ids_from_counters_witness:
  "all_along in_range plain_External named_then_replaced new_GeometryDatabase \<and>
   fst (addItem plain_External a_solid user None
     (exec plain_External named_then_replaced new_GeometryDatabase)) = Inr (view_named 7) \<and>
   results plain_External named_then_replaced new_GeometryDatabase ! 1 =
     Some (Inr (view_named 6)) \<and>
   simpleName (view_named 6) < simpleName (view_named 7) \<and>
   fst (addItem plain_External a_solid user (Some 3)
     (exec plain_External named_then_replaced new_GeometryDatabase)) = Inr (view_named 3) \<and>
   builds_named plain_External \<and>
   fst (addTemporaryItem plain_External a_solid True
     (exec plain_External named_then_replaced new_GeometryDatabase)) = Inr (view_named (- 1)) \<and>
   negativeCounter (exec plain_External named_then_replaced new_GeometryDatabase) < 0 \<and>
   all_along explicit_positive plain_External named_then_replaced new_GeometryDatabase \<and>
   positive_only (exec plain_External named_then_replaced new_GeometryDatabase)"
proof -
  let ?db = "exec plain_External named_then_replaced new_GeometryDatabase"
  have range: "all_along in_range plain_External named_then_replaced new_GeometryDatabase"
    by (simp add: named_then_replaced_def plain_run)
  note T = ids_from_counters [OF range refl, where model = a_solid]
  have a: "fst (addItem plain_External a_solid user None ?db) = Inr (view_named 7)"
    by (simp add: named_then_replaced_def plain_run)
  then have a': "addItem plain_External a_solid user None ?db =
      (Inr (view_named 7), snd (addItem plain_External a_solid user None ?db))"
    by (simp add: prod_eq_iff)
  have r: "results plain_External named_then_replaced new_GeometryDatabase ! 1 =
      Some (Inr (view_named 6))"
    by (simp add: named_then_replaced_def plain_run)
  have real: "is_real (named_then_replaced ! 1)" "1 < length named_then_replaced"
    by (simp_all add: named_then_replaced_def)
  have b: "fst (addItem plain_External a_solid user (Some 3) ?db) = Inr (view_named 3)"
    by (simp add: named_then_replaced_def plain_run)
  have c: "fst (addTemporaryItem plain_External a_solid True ?db) = Inr (view_named (- 1))"
    by (simp add: plain_addTemporaryItem)
       (simp add: named_then_replaced_def plain_run addTemporaryItem_indices)
  have d: "all_along explicit_positive plain_External named_then_replaced new_GeometryDatabase"
    by (simp add: named_then_replaced_def)
  from T [where agent = user and view = "view_named 7"
      and db' = "snd (addItem plain_External a_solid user None ?db)"] a' real r
  have "simpleName (view_named 6) < simpleName (view_named 7)" by blast
  moreover from T have "negativeCounter ?db < 0" by blast
  moreover from T d have "positive_only ?db" by blast
  ultimately show ?thesis
    using range a r b c d plain_builds_named by blast
qed

text \<open>
  C9 as stated fails where \<open>addItem\<close> is given an explicit name: after the ids 5 and 6 have
  been handed out, the explicit name 3 becomes the id of the next item, and 3 is not
  greater than they are.
\<close>

theorem ids_from_counters_counterexample:
  "results plain_External named_then_replaced new_GeometryDatabase ! 1 =
     Some (Inr (view_named 6)) \<and>
   fst (addItem plain_External a_solid user (Some 3)
     (exec plain_External named_then_replaced new_GeometryDatabase)) = Inr (view_named 3) \<and>
   \<not> simpleName (view_named 6) < simpleName (view_named 3)"
  by (simp add: named_then_replaced_def plain_run)

subsection \<open>Snapshots\<close>

lemma in_place_parts:
  "fst (snd (in_place method (this, st))) =
     this\<lparr> positiveCounter := positiveCounter (snd (method (load this st))),
           negativeCounter := negativeCounter (snd (method (load this st))),
           temporaryObjects := temporaryObjects (snd (method (load this st))),
           phantomObjects := phantomObjects (snd (method (load this st))),
           signals := signals (snd (method (load this st))) \<rparr>"
  "snd (snd (in_place method (this, st))) = write_back this (snd (method (load this st))) st"
  by (simp_all add: in_place_def split_beta Let_def)

lemma write_back_other:
  "allocated (write_back this db st) = allocated st"
  "r \<noteq> this_geometryModel this \<Longrightarrow> geometry_maps (write_back this db st) r = geometry_maps st r"
  "r \<noteq> this_version2name this \<Longrightarrow> version_maps (write_back this db st) r = version_maps st r"
  "r \<noteq> this_name2version this \<Longrightarrow> name_maps (write_back this db st) r = name_maps st r"
  "r \<noteq> this_topologyModel this \<Longrightarrow> topology_maps (write_back this db st) r = topology_maps st r"
  "r \<noteq> this_controlPointModel this \<Longrightarrow> point_maps (write_back this db st) r = point_maps st r"
  "r \<noteq> this_automatics this \<Longrightarrow> name_sets (write_back this db st) r = name_sets st r"
  by (simp_all add: write_back_def)

lemma in_place_apart:
  assumes "apart m (this, st)"
  shows "apart m (snd (in_place method (this, st)))"
    and "contents m (snd (snd (in_place method (this, st)))) = contents m st"
proof -
  show "apart m (snd (in_place method (this, st)))"
    using assms
    by (simp add: apart_def prod_eq_iff in_place_parts write_back_other(1) split_beta)
  show "contents m (snd (snd (in_place method (this, st)))) = contents m st"
    using assms
    by (simp add: apart_def in_place_parts(2) write_back_other contents_def)
qed


lemma save_parts:
  "fst (saveToMemento (this, st)) =
     \<lparr> m_geometryModel = allocated st, m_version2name = allocated st + 1,
       m_name2version = allocated st + 2, m_topologyModel = allocated st + 3,
       m_controlPointModel = allocated st + 4, m_automatics = allocated st + 5 \<rparr>"
  "allocated (snd (saveToMemento (this, st))) = allocated st + 6"
  "geometry_maps (snd (saveToMemento (this, st))) =
     (geometry_maps st)(allocated st := geometry_maps st (this_geometryModel this))"
  "version_maps (snd (saveToMemento (this, st))) =
     (version_maps st)(allocated st + 1 := version_maps st (this_version2name this))"
  "name_maps (snd (saveToMemento (this, st))) =
     (name_maps st)(allocated st + 2 := name_maps st (this_name2version this))"
  "topology_maps (snd (saveToMemento (this, st))) =
     (topology_maps st)(allocated st + 3 := topology_maps st (this_topologyModel this))"
  "point_maps (snd (saveToMemento (this, st))) =
     (point_maps st)(allocated st + 4 := point_maps st (this_controlPointModel this))"
  "name_sets (snd (saveToMemento (this, st))) =
     (name_sets st)(allocated st + 5 := name_sets st (this_automatics this))"
  by (simp_all add: saveToMemento_def Let_def)

lemma restore_parts:
  "fst (restoreFromMemento m (this, st)) =
     this\<lparr> this_geometryModel := allocated st, this_version2name := allocated st + 1,
           this_name2version := allocated st + 2, this_topologyModel := allocated st + 3,
           this_controlPointModel := allocated st + 4, this_automatics := allocated st + 5 \<rparr>"
  "allocated (snd (restoreFromMemento m (this, st))) = allocated st + 6"
  "geometry_maps (snd (restoreFromMemento m (this, st))) =
     (geometry_maps st)(allocated st := geometry_maps st (m_geometryModel m))"
  "version_maps (snd (restoreFromMemento m (this, st))) =
     (version_maps st)(allocated st + 1 := version_maps st (m_version2name m))"
  "name_maps (snd (restoreFromMemento m (this, st))) =
     (name_maps st)(allocated st + 2 := name_maps st (m_name2version m))"
  "topology_maps (snd (restoreFromMemento m (this, st))) =
     (topology_maps st)(allocated st + 3 := topology_maps st (m_topologyModel m))"
  "point_maps (snd (restoreFromMemento m (this, st))) =
     (point_maps st)(allocated st + 4 := point_maps st (m_controlPointModel m))"
  "name_sets (snd (restoreFromMemento m (this, st))) =
     (name_sets st)(allocated st + 5 := name_sets st (m_automatics m))"
  by (simp_all add: restoreFromMemento_def Let_def)

lemma apart_iff:
  "apart m (this, st) \<longleftrightarrow>
     m_geometryModel m < allocated st \<and> m_version2name m < allocated st \<and>
     m_name2version m < allocated st \<and> m_topologyModel m < allocated st \<and>
     m_controlPointModel m < allocated st \<and> m_automatics m < allocated st \<and>
     m_geometryModel m \<noteq> this_geometryModel this \<and>
     m_version2name m \<noteq> this_version2name this \<and>
     m_name2version m \<noteq> this_name2version this \<and>
     m_topologyModel m \<noteq> this_topologyModel this \<and>
     m_controlPointModel m \<noteq> this_controlPointModel this \<and>
     m_automatics m \<noteq> this_automatics this"
  by (simp add: apart_def)

lemma save_apart:
  assumes "apart m (this, st)"
  shows "apart m (this, snd (saveToMemento (this, st)))"
    and "contents m (snd (saveToMemento (this, st))) = contents m st"
proof -
  from assms show "apart m (this, snd (saveToMemento (this, st)))"
    unfolding apart_iff save_parts by simp
  from assms show "contents m (snd (saveToMemento (this, st))) = contents m st"
    unfolding apart_iff contents_def save_parts by simp
qed

lemma restore_apart:
  assumes "apart m (this, st)"
  shows "apart m (restoreFromMemento m' (this, st))"
    and "contents m (snd (restoreFromMemento m' (this, st))) = contents m st"
proof -
  have "apart m (fst (restoreFromMemento m' (this, st)), snd (restoreFromMemento m' (this, st)))"
    using assms unfolding apart_iff restore_parts by simp
  then show "apart m (restoreFromMemento m' (this, st))" by simp
  from assms show "contents m (snd (restoreFromMemento m' (this, st))) = contents m st"
    unfolding apart_iff contents_def restore_parts by simp
qed


lemma live_step_apart:
  assumes "apart m s"
  shows "apart m (live_step E lop s) \<and> contents m (snd (live_step E lop s)) = contents m (snd s)"
proof -
  obtain this st where s: "s = (this, st)" by (cases s)
  show ?thesis
  proof (cases lop)
    case (Mutate op)
    with assms in_place_apart [of m this st "perform E op"] show ?thesis
      unfolding s by (simp del: perform.simps)
  next
    case Save
    with assms save_apart [of m this st] show ?thesis
      unfolding s by simp
  next
    case (Restore m')
    with assms restore_apart [of m this st m'] show ?thesis
      unfolding s by simp
  qed
qed

lemma live_exec_apart:
  "apart m s \<Longrightarrow>
   apart m (live_exec E lops s) \<and> contents m (snd (live_exec E lops s)) = contents m (snd s)"
proof (induction lops arbitrary: s)
  case Nil
  then show ?case by simp
next
  case (Cons lop lops)
  from live_step_apart [OF Cons.prems, of E lop] Cons.IH [of "live_step E lop s"]
  show ?case by (simp del: live_step.simps)
qed

lemma created_iff:
  "created (this, st) \<longleftrightarrow>
     this_geometryModel this < allocated st \<and> this_version2name this < allocated st \<and>
     this_name2version this < allocated st \<and> this_topologyModel this < allocated st \<and>
     this_controlPointModel this < allocated st \<and> this_automatics this < allocated st"
  by (simp add: created_def)

lemma save_fresh:
  assumes "created (this, st)"
  shows "apart (fst (saveToMemento (this, st))) (this, snd (saveToMemento (this, st)))"
    and "contents (fst (saveToMemento (this, st))) (snd (saveToMemento (this, st))) =
         tracked (load this st)"
proof -
  from assms show "apart (fst (saveToMemento (this, st))) (this, snd (saveToMemento (this, st)))"
    unfolding apart_iff created_iff save_parts by simp
  show "contents (fst (saveToMemento (this, st))) (snd (saveToMemento (this, st))) =
         tracked (load this st)"
    unfolding contents_def save_parts by (simp add: tracked_def load_def)
qed

lemma restore_contents:
  "tracked (load (fst (restoreFromMemento m (this, st))) (snd (restoreFromMemento m (this, st)))) =
   contents m st"
  unfolding tracked_def load_def restore_parts contents_def by simp

lemma created_new: "created (new_This, new_Store)"
  by (simp add: created_def new_This_def new_Store_def)

text \<open>
  C7. Let every collection of the database be a created object and let \<open>saveToMemento\<close>
  return the memento \<open>m\<close>. Then \<open>m\<close> holds the contents the six collections had at that
  moment, and still holds exactly these after any sequence of operations on the live
  database: additions, replacements, removals, temporary items, further snapshots and
  restores, also restores from \<open>m\<close> itself. \<open>restoreFromMemento m'\<close> leaves each of the six
  collections of the database with exactly the contents of the memento's, for any memento
  and any database, so nothing from before the restore is left; and restoring the memento
  just saved leaves the six collections with the contents they had.
\<close>

theorem memento_snapshot:
  assumes "created (this, st)"
    and "saveToMemento (this, st) = (m, st1)"
  shows "contents m st1 = tracked (load this st) \<and>
         contents m (snd (live_exec E lops (this, st1))) = tracked (load this st) \<and>
         tracked (load (fst (restoreFromMemento m' (this', st')))
           (snd (restoreFromMemento m' (this', st')))) = contents m' st' \<and>
         tracked (load (fst (restoreFromMemento m (this, st1)))
           (snd (restoreFromMemento m (this, st1)))) = tracked (load this st)"
proof -
  from save_fresh [OF assms(1)] assms(2)
  have ap: "apart m (this, st1)" and c: "contents m st1 = tracked (load this st)"
    by simp_all
  from live_exec_apart [OF ap, of E lops] c
  have "contents m (snd (live_exec E lops (this, st1))) = tracked (load this st)"
    by simp
  with c restore_contents [of m' this' st'] restore_contents [of m this st1] show ?thesis
    by simp
qed

theorem memento_snapshot_witness:
  "created (new_This, new_Store) \<and>
   contents (fst (saveToMemento (new_This, new_Store)))
     (snd (live_exec plain_External (after_snapshot (fst (saveToMemento (new_This, new_Store))))
        (new_This, snd (saveToMemento (new_This, new_Store))))) =
   tracked (load new_This new_Store) \<and>
   tracked (load new_This new_Store) = (Map.empty, Map.empty, Map.empty, Map.empty, Map.empty, {})"
proof -
  have h: "saveToMemento (new_This, new_Store) =
      (fst (saveToMemento (new_This, new_Store)), snd (saveToMemento (new_This, new_Store)))"
    by simp
  have "tracked (load new_This new_Store) =
      (Map.empty, Map.empty, Map.empty, Map.empty, Map.empty, {})"
    by (simp add: tracked_def load_def new_This_def new_Store_def)
  with memento_snapshot [OF created_new h] created_new show ?thesis
    by simp
qed

section \<open>Properties of the command executor\<close>

subsection \<open>The fields after each operation\<close>

declare run_loop.simps [simp del]

lemma run_loop_idle: "active ex = None \<Longrightarrow> run_loop ex = ex"
  by (subst run_loop.simps) simp

lemma run_loop_pending:
  "active ex = Some a \<Longrightarrow> execute (commands ex ! a) = pending \<Longrightarrow> run_loop ex = start a ex"
  by (subst run_loop.simps) simp

lemma run_loop_settled:
  "active ex = Some a \<Longrightarrow> execute (commands ex ! a) \<noteq> pending \<Longrightarrow>
   run_loop ex = run_loop (settle a (execute (commands ex ! a)) (start a ex))"
  by (subst run_loop.simps) (simp split: Promise.splits)

lemma state_update:
  "state ((xs[c := (xs ! c)\<lparr> state := s \<rparr>]) ! i) = (if i = c \<and> c < length xs then s else state (xs ! i))"
  by (cases "c < length xs") (simp_all add: nth_list_update list_update_beyond)

lemma execute_update:
  "execute ((xs[c := (xs ! c)\<lparr> state := s \<rparr>]) ! i) = execute (xs ! i)"
  by (cases "c < length xs"; cases "i = c")
     (simp_all add: execute_def list_update_beyond split: Command_Class.splits)

lemma set_state_fields:
  "length (commands (set_state c s ex)) = length (commands ex)"
  "active (set_state c s ex) = active ex"
  "waiting (set_state c s ex) = waiting ex"
  "handles (set_state c s ex) = handles ex"
  "history (set_state c s ex) = history ex"
  "state (commands (set_state c s ex) ! i) =
     (if i = c \<and> c < length (commands ex) then s else state (commands ex ! i))"
  "execute (commands (set_state c s ex) ! i) = execute (commands ex ! i)"
  by (simp_all add: set_state_def state_update execute_update)

lemma interrupt_fields:
  "length (commands (interrupt a ex)) = length (commands ex)"
  "active (interrupt a ex) = active ex"
  "waiting (interrupt a ex) = waiting ex"
  "handles (interrupt a ex) =
     (if state (commands ex ! a) = None' \<or> state (commands ex ! a) = Started
      then (handles ex)[a := resolved] else handles ex)"
  "history (interrupt a ex) = history ex"
  "state (commands (interrupt a ex) ! i) =
     (if i = a \<and> a < length (commands ex) \<and>
         (state (commands ex ! a) = None' \<or> state (commands ex ! a) = Started)
      then Interrupted else state (commands ex ! i))"
  "execute (commands (interrupt a ex) ! i) = execute (commands ex ! i)"
  by (simp_all add: interrupt_def set_state_fields)

lemma start_fields:
  "length (commands (start a ex)) = length (commands ex)"
  "active (start a ex) = active ex"
  "waiting (start a ex) = waiting ex"
  "handles (start a ex) = handles ex"
  "history (start a ex) = history ex"
  "state (commands (start a ex) ! i) =
     (if i = a \<and> a < length (commands ex) \<and> state (commands ex ! a) = None'
      then Started else state (commands ex ! i))"
  "execute (commands (start a ex) ! i) = execute (commands ex ! i)"
  by (simp_all add: start_def set_state_fields)

lemma settle_fields:
  "length (commands (settle a p ex)) = length (commands ex)"
  "active (settle a p ex) = waiting ex"
  "waiting (settle a p ex) = None"
  "handles (settle a p ex) = (handles ex)[a := resolved]"
  "history (settle a p ex) =
     (if state (commands ex ! a) \<noteq> Interrupted \<and> p = resolved then history ex @ [a]
      else history ex)"
  "state (commands (settle a p ex) ! i) =
     (if i = a \<and> a < length (commands ex) \<and> state (commands ex ! a) \<noteq> Interrupted
      then (if p = resolved then Finished else Cancelled) else state (commands ex ! i))"
  "execute (commands (settle a p ex) ! i) = execute (commands ex ! i)"
  by (simp_all add: settle_def Let_def set_state_fields)

lemma settle_delay_fields:
  "length (commands (settle_delay c p ex)) = length (commands ex)"
  "active (settle_delay c p ex) = active ex"
  "waiting (settle_delay c p ex) = waiting ex"
  "handles (settle_delay c p ex) = handles ex"
  "history (settle_delay c p ex) = history ex"
  "state (commands (settle_delay c p ex) ! i) = state (commands ex ! i)"
  by (simp_all add: settle_delay_def nth_list_update)

lemma settle_delay_execute:
  "execute (commands ex ! i) \<noteq> pending \<Longrightarrow>
   execute (commands (settle_delay c p ex) ! i) = execute (commands ex ! i)"
  by (auto simp add: settle_delay_def nth_list_update execute_def split: Command_Class.splits)

lemma enqueue_fields:
  "length (commands (enqueue k ex)) = Suc (length (commands ex))"
  "active (enqueue k ex) = (case active ex of None \<Rightarrow> Some (length (commands ex)) | Some a \<Rightarrow> Some a)"
  "waiting (enqueue k ex) = (case active ex of None \<Rightarrow> waiting ex | Some a \<Rightarrow> Some (length (commands ex)))"
  "history (enqueue k ex) = history ex"
  "handles (enqueue k ex) =
     (case active ex of None \<Rightarrow> handles ex @ [pending]
      | Some a \<Rightarrow> (case waiting ex of None \<Rightarrow> handles (interrupt a ex) @ [pending]
                   | Some w \<Rightarrow> (handles (interrupt a ex) @ [pending])[w := resolved]))"
  by (simp_all add: enqueue_def Let_def interrupt_fields split: option.splits)

lemma enqueue_commands:
  "commands (enqueue k ex) =
     commands (case active ex of None \<Rightarrow> ex | Some a \<Rightarrow> interrupt a ex)
       @ [\<lparr> klass = k, state = None', delay = pending \<rparr>]"
  by (simp add: enqueue_def Let_def split: option.splits)

lemma enqueue_state:
  "i \<le> length (commands ex) \<Longrightarrow>
   state (commands (enqueue k ex) ! i) =
     (if i = length (commands ex) then None'
      else case active ex of None \<Rightarrow> state (commands ex ! i)
           | Some a \<Rightarrow> state (commands (interrupt a ex) ! i))"
  by (cases "active ex") (auto simp add: enqueue_commands nth_append interrupt_fields(1))

lemma enqueue_execute:
  "i < length (commands ex) \<Longrightarrow>
   execute (commands (enqueue k ex) ! i) = execute (commands ex ! i)"
  by (cases "active ex")
     (simp_all add: enqueue_commands nth_append interrupt_fields(1) interrupt_fields(7))

subsection \<open>Invariants of the executor\<close>

lemma run_loop_invariant:
  assumes "P ex"
    and started: "\<And>ex a. P ex \<Longrightarrow> active ex = Some a \<Longrightarrow> P (start a ex)"
    and settled: "\<And>ex a. P ex \<Longrightarrow> active ex = Some a \<Longrightarrow> execute (commands ex ! a) \<noteq> pending \<Longrightarrow>
        P (settle a (execute (commands ex ! a)) ex)"
  shows "P (run_loop ex)"
  using assms(1)
proof (induction ex rule: run_loop.induct)
  case (1 ex)
  show ?case
  proof (cases "active ex")
    case None
    with "1.prems" show ?thesis by (simp add: run_loop_idle)
  next
    case (Some a)
    have st: "P (start a ex)" using "1.prems" Some by (rule started)
    show ?thesis
    proof (cases "execute (commands ex ! a) = pending")
      case True
      with Some st show ?thesis by (simp add: run_loop_pending)
    next
      case False
      let ?p = "execute (commands ex ! a)"
      have "P (settle a (execute (commands (start a ex) ! a)) (start a ex))"
        using st Some False by (intro settled) (simp_all add: start_fields)
      then have P': "P (settle a ?p (start a ex))" by (simp add: start_fields)
      have "P (run_loop (settle a ?p (start a ex)))"
      proof (cases ?p)
        case pending
        with False show ?thesis by simp
      next
        case resolved
        from "1.IH"(1) [OF Some resolved] P' resolved show ?thesis by simp
      next
        case rejected
        from "1.IH"(2) [OF Some rejected] P' rejected show ?thesis by simp
      qed
      with Some False show ?thesis by (simp add: run_loop_settled)
    qed
  qed
qed

lemma slots_ok_new: "slots_ok new_CommandExecutor"
  by (simp add: slots_ok_def new_CommandExecutor_def)

lemma slots_ok_idle: "slots_ok ex \<Longrightarrow> active ex = None \<Longrightarrow> waiting ex = None"
  by (cases "waiting ex") (auto simp add: slots_ok_def)

lemma slots_ok_active:
  assumes "slots_ok ex" "active ex = Some a"
  shows "a < length (commands ex)"
    and "state (commands ex ! a) = None' \<or> state (commands ex ! a) = Started \<or>
         state (commands ex ! a) = Interrupted"
proof -
  from assms show "a < length (commands ex)" by (simp add: slots_ok_def)
  from assms have "state (commands ex ! a) \<noteq> Finished" "state (commands ex ! a) \<noteq> Cancelled"
    by (simp_all add: slots_ok_def)
  then show "state (commands ex ! a) = None' \<or> state (commands ex ! a) = Started \<or>
         state (commands ex ! a) = Interrupted"
    by (cases "state (commands ex ! a)") simp_all
qed

lemma slots_ok_waiting:
  assumes "slots_ok ex" "waiting ex = Some w"
  shows "w < length (commands ex)" "state (commands ex ! w) = None'"
    and "\<exists>a. active ex = Some a \<and> a \<noteq> w \<and> state (commands ex ! a) = Interrupted"
proof -
  from assms show "w < length (commands ex)" "state (commands ex ! w) = None'"
    by (simp_all add: slots_ok_def)
  from assms obtain a where "active ex = Some a" "a \<noteq> w"
    by (cases "active ex") (auto simp add: slots_ok_def)
  moreover with assms have "state (commands ex ! a) = Interrupted"
    by (simp add: slots_ok_def)
  ultimately show "\<exists>a. active ex = Some a \<and> a \<noteq> w \<and> state (commands ex ! a) = Interrupted"
    by blast
qed

lemma interrupt_length_handles:
  "length (handles (interrupt a ex)) = length (handles ex)"
  by (simp add: interrupt_fields(4))

lemma enqueue_length_handles:
  "length (handles (enqueue k ex)) = Suc (length (handles ex))"
  by (simp add: enqueue_fields(5) interrupt_length_handles split: option.splits)

lemma enqueue_interrupts:
  assumes "slots_ok ex" "active ex = Some a"
  shows "state (commands (enqueue k ex) ! a) = Interrupted"
  using slots_ok_active [OF assms] assms(2)
  by (auto simp add: enqueue_state interrupt_fields(1,6))

lemma slots_ok_enqueue:
  assumes "slots_ok ex"
  shows "slots_ok (enqueue k ex)"
proof -
  let ?n = "length (commands ex)"
  from assms have len: "length (handles ex) = ?n" by (simp add: slots_ok_def)
  have L: "length (handles (enqueue k ex)) = length (commands (enqueue k ex))"
    by (simp add: enqueue_length_handles enqueue_fields(1) len)
  show ?thesis
  proof (cases "active ex")
    case None
    with slots_ok_idle [OF assms] have w: "waiting (enqueue k ex) = None"
      and a: "active (enqueue k ex) = Some ?n"
      by (simp_all add: enqueue_fields)
    have "state (commands (enqueue k ex) ! ?n) = None'"
      by (simp add: enqueue_state)
    with L w a show ?thesis
      by (simp add: slots_ok_def enqueue_fields(1))
  next
    case (Some a)
    from slots_ok_active [OF assms Some] have an: "a < ?n" by simp
    have act: "active (enqueue k ex) = Some a" and w: "waiting (enqueue k ex) = Some ?n"
      using Some by (simp_all add: enqueue_fields)
    have sa: "state (commands (enqueue k ex) ! a) = Interrupted"
      using assms Some by (rule enqueue_interrupts)
    have sn: "state (commands (enqueue k ex) ! ?n) = None'"
      by (simp add: enqueue_state)
    from L act w sa sn an show ?thesis
      by (simp add: slots_ok_def enqueue_fields(1))
  qed
qed

lemma slots_ok_settle_delay: "slots_ok ex \<Longrightarrow> slots_ok (settle_delay c p ex)"
  by (simp add: slots_ok_def settle_delay_fields)

lemma slots_ok_start:
  assumes "slots_ok ex" "active ex = Some a"
  shows "slots_ok (start a ex)"
proof -
  from assms have len: "length (handles ex) = length (commands ex)"
    and a: "a < length (commands ex)" "state (commands ex ! a) \<noteq> Finished"
      "state (commands ex ! a) \<noteq> Cancelled"
    by (simp_all add: slots_ok_def)
  have A: "state (commands (start a ex) ! a) \<noteq> Finished \<and>
      state (commands (start a ex) ! a) \<noteq> Cancelled"
    using a by (simp add: start_fields(6))
  have W: "w < length (commands ex) \<and> state (commands (start a ex) ! w) = None' \<and>
      a \<noteq> w \<and> state (commands (start a ex) ! a) = Interrupted"
    if "waiting ex = Some w" for w
  proof -
    from slots_ok_waiting [OF assms(1) that] assms(2)
    have "w < length (commands ex)" "state (commands ex ! w) = None'" "a \<noteq> w"
      "state (commands ex ! a) = Interrupted"
      by auto
    then show ?thesis by (simp add: start_fields(6))
  qed
  from len a(1) A W assms(2) show ?thesis
    by (simp add: slots_ok_def start_fields(1,2,3,4))
qed

lemma slots_ok_settle:
  assumes "slots_ok ex" "active ex = Some a"
  shows "slots_ok (settle a p ex)"
proof -
  from assms have len: "length (handles ex) = length (commands ex)"
    by (simp add: slots_ok_def)
  have "w < length (commands ex) \<and> state (commands (settle a p ex) ! w) \<noteq> Finished \<and>
      state (commands (settle a p ex) ! w) \<noteq> Cancelled"
    if "waiting ex = Some w" for w
  proof -
    from slots_ok_waiting [OF assms(1) that] assms(2)
    have "w < length (commands ex)" "state (commands ex ! w) = None'" "a \<noteq> w"
      by auto
    then show ?thesis by (simp add: settle_fields(6))
  qed
  with len show ?thesis
    by (simp add: slots_ok_def settle_fields(1,2,3,4))
qed

lemma slots_ok_run_loop: "slots_ok ex \<Longrightarrow> slots_ok (run_loop ex)"
  by (rule run_loop_invariant) (simp_all add: slots_ok_start slots_ok_settle)

lemma slots_ok_step: "slots_ok ex \<Longrightarrow> slots_ok (step e ex)"
  by (cases e) (simp_all add: slots_ok_enqueue slots_ok_settle_delay slots_ok_run_loop)

lemma slots_ok_run: "slots_ok ex \<Longrightarrow> slots_ok (run es ex)"
  by (induction es arbitrary: ex) (simp_all add: slots_ok_step)

lemma history_ok_new: "history_ok new_CommandExecutor"
  by (simp add: history_ok_def new_CommandExecutor_def)

lemma enqueue_Finished:
  "i \<le> length (commands ex) \<Longrightarrow>
   state (commands (enqueue k ex) ! i) = Finished \<longleftrightarrow>
   i < length (commands ex) \<and> state (commands ex ! i) = Finished"
  by (auto simp add: enqueue_state interrupt_fields split: option.splits)

lemma enqueue_Cancelled:
  "i \<le> length (commands ex) \<Longrightarrow>
   state (commands (enqueue k ex) ! i) = Cancelled \<longleftrightarrow>
   i < length (commands ex) \<and> state (commands ex ! i) = Cancelled"
  by (auto simp add: enqueue_state interrupt_fields split: option.splits)

lemma history_ok_enqueue:
  assumes "history_ok ex"
  shows "history_ok (enqueue k ex)"
proof -
  have "{c. c < Suc (length (commands ex)) \<and> state (commands (enqueue k ex) ! c) = Finished} =
        {c. c < length (commands ex) \<and> state (commands ex ! c) = Finished}"
    using enqueue_Finished [of _ ex k] by (auto simp add: less_Suc_eq_le)
  with assms show ?thesis
    by (simp add: history_ok_def enqueue_fields)
qed

lemma history_ok_settle_delay: "history_ok ex \<Longrightarrow> history_ok (settle_delay c p ex)"
  by (simp add: history_ok_def settle_delay_fields)

lemma start_ended:
  "state (commands (start a ex) ! c) = Finished \<longleftrightarrow> state (commands ex ! c) = Finished"
  "state (commands (start a ex) ! c) = Cancelled \<longleftrightarrow> state (commands ex ! c) = Cancelled"
  "state (commands (start a ex) ! c) = Interrupted \<longleftrightarrow> state (commands ex ! c) = Interrupted"
  by (simp_all add: start_fields)

lemma history_ok_start: "history_ok ex \<Longrightarrow> history_ok (start a ex)"
  by (simp add: history_ok_def start_fields(1,5) start_ended)

lemma history_ok_settle:
  assumes "history_ok ex" "slots_ok ex" "active ex = Some a"
  shows "history_ok (settle a p ex)"
proof -
  let ?F = "{c. c < length (commands ex) \<and> state (commands ex ! c) = Finished}"
  let ?F' = "{c. c < length (commands ex) \<and> state (commands (settle a p ex) ! c) = Finished}"
  from assms(2,3) have a: "a < length (commands ex)" "state (commands ex ! a) \<noteq> Finished"
    by (simp_all add: slots_ok_def)
  from assms(1) have d: "distinct (history ex)" and h: "set (history ex) = ?F"
    by (simp_all add: history_ok_def)
  from a h have fresh: "a \<notin> set (history ex)" by simp
  show ?thesis
  proof (cases "state (commands ex ! a) \<noteq> Interrupted \<and> p = resolved")
    case True
    then have "state (commands (settle a p ex) ! c) = Finished \<longleftrightarrow>
        c = a \<or> state (commands ex ! c) = Finished" for c
      using a by (simp add: settle_fields(6))
    then have "?F' = insert a ?F" using a by blast
    moreover from True have "history (settle a p ex) = history ex @ [a]"
      by (simp add: settle_fields(5))
    ultimately show ?thesis
      using d h fresh by (simp add: history_ok_def settle_fields(1))
  next
    case False
    then have "state (commands (settle a p ex) ! c) = Finished \<longleftrightarrow>
        state (commands ex ! c) = Finished" for c
      using a by (cases "c = a") (auto simp add: settle_fields(6))
    then have "?F' = ?F" by simp
    moreover from False have "history (settle a p ex) = history ex"
      by (auto simp add: settle_fields(5))
    ultimately show ?thesis
      using d h by (simp add: history_ok_def settle_fields(1))
  qed
qed

lemma history_ok_run_loop:
  assumes "slots_ok ex" "history_ok ex"
  shows "history_ok (run_loop ex)"
proof -
  have "slots_ok (run_loop ex) \<and> history_ok (run_loop ex)"
    by (rule run_loop_invariant)
       (simp_all add: assms slots_ok_start slots_ok_settle history_ok_start history_ok_settle)
  then show ?thesis by simp
qed

lemma history_ok_step: "slots_ok ex \<Longrightarrow> history_ok ex \<Longrightarrow> history_ok (step e ex)"
  by (cases e) (simp_all add: history_ok_enqueue history_ok_settle_delay history_ok_run_loop)

lemma history_ok_run: "slots_ok ex \<Longrightarrow> history_ok ex \<Longrightarrow> history_ok (run es ex)"
  by (induction es arbitrary: ex) (simp_all add: history_ok_step slots_ok_step)

lemma handles_ok_new: "handles_ok new_CommandExecutor"
  by (simp add: handles_ok_def new_CommandExecutor_def)

lemma nth_update_any:
  "(xs[i := x]) ! j = (if i = j \<and> i < length xs then x else xs ! j)"
  by (cases "i < length xs") (simp_all add: nth_list_update list_update_beyond)

lemma enqueue_handle:
  assumes "length (handles ex) = length (commands ex)" "c \<le> length (commands ex)"
  shows "handles (enqueue k ex) ! c = resolved \<or>
         handles (enqueue k ex) ! c = (if c = length (commands ex) then pending else handles ex ! c)"
  using assms
  by (auto simp add: enqueue_fields(5) interrupt_fields(4) nth_append nth_update_any
      split: option.splits)

lemma enqueue_handle_interrupted:
  assumes "length (handles ex) = length (commands ex)" "active ex = Some a"
    and "a < length (commands ex)"
    and "state (commands ex ! a) = None' \<or> state (commands ex ! a) = Started"
  shows "handles (enqueue k ex) ! a = resolved"
  using assms
  by (auto simp add: enqueue_fields(5) interrupt_fields(4) nth_append nth_update_any
      split: option.splits)

lemma enqueue_Interrupted:
  assumes "i \<le> length (commands ex)"
    and "state (commands (enqueue k ex) ! i) = Interrupted"
  shows "i < length (commands ex) \<and>
     (state (commands ex ! i) = Interrupted \<or>
      active ex = Some i \<and>
      (state (commands ex ! i) = None' \<or> state (commands ex ! i) = Started))"
  using assms
  by (auto simp add: enqueue_state interrupt_fields(1,6) split: option.splits if_splits)

lemma handles_ok_enqueue:
  assumes "handles_ok ex" "slots_ok ex"
  shows "handles_ok (enqueue k ex)"
proof -
  from assms(2) have len: "length (handles ex) = length (commands ex)"
    by (simp add: slots_ok_def)
  have "handles (enqueue k ex) ! c \<noteq> rejected \<and>
        (state (commands (enqueue k ex) ! c) = Finished \<or>
         state (commands (enqueue k ex) ! c) = Cancelled \<or>
         state (commands (enqueue k ex) ! c) = Interrupted
           \<longrightarrow> handles (enqueue k ex) ! c = resolved)"
    if le: "c \<le> length (commands ex)" for c
  proof (cases "c = length (commands ex)")
    case True
    then have "state (commands (enqueue k ex) ! c) = None'"
      by (simp add: enqueue_state)
    with True enqueue_handle [OF len le, of k] show ?thesis by auto
  next
    case False
    with le have lt: "c < length (commands ex)" by simp
    with assms(1) have old: "handles ex ! c \<noteq> rejected"
      and ended: "state (commands ex ! c) = Finished \<or> state (commands ex ! c) = Cancelled \<or>
        state (commands ex ! c) = Interrupted \<Longrightarrow> handles ex ! c = resolved"
      by (auto simp add: handles_ok_def)
    have h: "handles (enqueue k ex) ! c = resolved \<or> handles (enqueue k ex) ! c = handles ex ! c"
      using enqueue_handle [OF len le, of k] False by simp
    have "handles (enqueue k ex) ! c = resolved"
      if "state (commands (enqueue k ex) ! c) = Finished \<or>
          state (commands (enqueue k ex) ! c) = Cancelled"
      using that h ended enqueue_Finished [OF le, of k] enqueue_Cancelled [OF le, of k]
      by auto
    moreover have "handles (enqueue k ex) ! c = resolved"
      if "state (commands (enqueue k ex) ! c) = Interrupted"
    proof -
      from enqueue_Interrupted [OF le that]
      consider "state (commands ex ! c) = Interrupted"
        | "active ex = Some c"
          "state (commands ex ! c) = None' \<or> state (commands ex ! c) = Started"
        by blast
      then show ?thesis
      proof cases
        case 1
        with ended h show ?thesis by auto
      next
        case 2
        with len lt show ?thesis by (intro enqueue_handle_interrupted)
      qed
    qed
    ultimately show ?thesis using h old by auto
  qed
  then show ?thesis
    by (simp add: handles_ok_def enqueue_fields less_Suc_eq_le)
qed

lemma handles_ok_settle_delay: "handles_ok ex \<Longrightarrow> handles_ok (settle_delay c p ex)"
  by (simp add: handles_ok_def settle_delay_fields)

lemma handles_ok_start: "handles_ok ex \<Longrightarrow> handles_ok (start a ex)"
  by (simp add: handles_ok_def start_fields(1,4) start_ended)

lemma handles_ok_settle:
  assumes "handles_ok ex" "slots_ok ex"
  shows "handles_ok (settle a p ex)"
proof -
  from assms(2) have len: "length (handles ex) = length (commands ex)"
    by (simp add: slots_ok_def)
  have "handles (settle a p ex) ! c \<noteq> rejected \<and>
        (state (commands (settle a p ex) ! c) = Finished \<or>
         state (commands (settle a p ex) ! c) = Cancelled \<or>
         state (commands (settle a p ex) ! c) = Interrupted
           \<longrightarrow> handles (settle a p ex) ! c = resolved)"
    if lt: "c < length (commands ex)" for c
  proof (cases "c = a")
    case True
    with lt len show ?thesis
      by (simp add: settle_fields(4))
  next
    case False
    then have "state (commands (settle a p ex) ! c) = state (commands ex ! c)"
      "handles (settle a p ex) ! c = handles ex ! c"
      by (simp_all add: settle_fields(4,6))
    with assms(1) lt show ?thesis
      by (simp add: handles_ok_def)
  qed
  then show ?thesis
    by (simp add: handles_ok_def settle_fields(1))
qed

lemma handles_ok_run_loop:
  assumes "slots_ok ex" "handles_ok ex"
  shows "handles_ok (run_loop ex)"
proof -
  have "slots_ok (run_loop ex) \<and> handles_ok (run_loop ex)"
    by (rule run_loop_invariant)
       (simp_all add: assms slots_ok_start slots_ok_settle handles_ok_start handles_ok_settle)
  then show ?thesis by simp
qed

lemma handles_ok_step: "slots_ok ex \<Longrightarrow> handles_ok ex \<Longrightarrow> handles_ok (step e ex)"
  by (cases e) (simp_all add: handles_ok_enqueue handles_ok_settle_delay handles_ok_run_loop)

lemma handles_ok_run: "slots_ok ex \<Longrightarrow> handles_ok ex \<Longrightarrow> handles_ok (run es ex)"
  by (induction es arbitrary: ex) (simp_all add: handles_ok_step slots_ok_step)

lemma outcome_ok_new: "outcome_ok new_CommandExecutor"
  by (simp add: outcome_ok_def new_CommandExecutor_def)

lemma outcome_ok_enqueue:
  assumes "outcome_ok ex"
  shows "outcome_ok (enqueue k ex)"
proof -
  have "(state (commands (enqueue k ex) ! c) = Finished \<longrightarrow>
           execute (commands (enqueue k ex) ! c) = resolved) \<and>
        (state (commands (enqueue k ex) ! c) = Cancelled \<longrightarrow>
           execute (commands (enqueue k ex) ! c) = rejected)"
    if "c \<le> length (commands ex)" for c
    using that assms enqueue_Finished [OF that, of k] enqueue_Cancelled [OF that, of k]
    by (auto simp add: outcome_ok_def enqueue_execute)
  then show ?thesis
    by (simp add: outcome_ok_def enqueue_fields less_Suc_eq_le)
qed


lemma outcome_ok_settle_delay: "outcome_ok ex \<Longrightarrow> outcome_ok (settle_delay c p ex)"
  by (simp add: outcome_ok_def settle_delay_fields settle_delay_execute)

lemma outcome_ok_start: "outcome_ok ex \<Longrightarrow> outcome_ok (start a ex)"
  by (simp add: outcome_ok_def start_fields(1,7) start_ended)

lemma outcome_ok_settle:
  assumes "outcome_ok ex" "execute (commands ex ! a) \<noteq> pending"
  shows "outcome_ok (settle a (execute (commands ex ! a)) ex)"
proof -
  let ?p = "execute (commands ex ! a)"
  have "(state (commands (settle a ?p ex) ! c) = Finished \<longrightarrow> execute (commands ex ! c) = resolved) \<and>
        (state (commands (settle a ?p ex) ! c) = Cancelled \<longrightarrow> execute (commands ex ! c) = rejected)"
    if lt: "c < length (commands ex)" for c
  proof (cases "c = a \<and> state (commands ex ! a) \<noteq> Interrupted")
    case True
    with lt assms(2) show ?thesis
      by (cases ?p) (simp_all add: settle_fields(6))
  next
    case False
    then have "state (commands (settle a ?p ex) ! c) = state (commands ex ! c)"
      by (auto simp add: settle_fields(6))
    with assms(1) lt show ?thesis
      by (simp add: outcome_ok_def)
  qed
  then show ?thesis
    by (simp add: outcome_ok_def settle_fields(1,7))
qed

lemma outcome_ok_run_loop: "outcome_ok ex \<Longrightarrow> outcome_ok (run_loop ex)"
  by (rule run_loop_invariant) (simp_all add: outcome_ok_start outcome_ok_settle)

lemma outcome_ok_step: "outcome_ok ex \<Longrightarrow> outcome_ok (step e ex)"
  by (cases e) (simp_all add: outcome_ok_enqueue outcome_ok_settle_delay outcome_ok_run_loop)

lemma outcome_ok_run: "outcome_ok ex \<Longrightarrow> outcome_ok (run es ex)"
  by (induction es arbitrary: ex) (simp_all add: outcome_ok_step)


subsection \<open>One command on its own\<close>

lemma run_append: "run (es @ es') ex = run es' (run es ex)"
  by (induction es arbitrary: ex) simp_all

lemma run_loop_single:
  assumes "active ex = Some a" "waiting ex = None" "execute (commands ex ! a) \<noteq> pending"
  shows "run_loop ex = settle a (execute (commands ex ! a)) (start a ex)"
proof -
  have "active (settle a (execute (commands ex ! a)) (start a ex)) = None"
    using assms(2) by (simp add: settle_fields start_fields)
  then show ?thesis
    using run_loop_settled [OF assms(1,3)] by (simp add: run_loop_idle)
qed

lemma alone_result_raw:
  assumes len: "length hs = length cs" and "effect k p \<noteq> pending"
  shows "run (alone k p (length cs))
       \<lparr> commands = cs, active = None, waiting = None, handles = hs, history = h \<rparr> =
     \<lparr> commands = cs @
            [\<lparr> klass = k, state = (if effect k p = resolved then Finished else Cancelled),
               delay = p \<rparr>],
       active = None, waiting = None,
       handles = hs @ [resolved],
       history = (if effect k p = resolved then h @ [length cs] else h) \<rparr>"
proof -
  let ?ex = "\<lparr> commands = cs, active = None, waiting = None, handles = hs, history = h \<rparr>"
  let ?ex1 = "\<lparr> commands = cs @ [\<lparr> klass = k, state = None', delay = p \<rparr>],
      active = Some (length cs), waiting = None, handles = hs @ [pending], history = h \<rparr>"
  have L: "(hs @ [pending])[length cs := resolved] = hs @ [resolved]"
    by (simp add: len [symmetric])
  have "run (alone k p (length cs)) ?ex = run_loop ?ex1"
    by (cases p) (simp_all add: alone_def enqueue_def settle_delay_def Let_def)
  also have "\<dots> = settle (length cs) (effect k p) (start (length cs) ?ex1)"
    using assms(2) run_loop_single [of ?ex1 "length cs"] by (simp add: effect_def execute_def)
  also have "\<dots> = \<lparr> commands = cs @
            [\<lparr> klass = k, state = (if effect k p = resolved then Finished else Cancelled),
               delay = p \<rparr>],
       active = None, waiting = None,
       handles = hs @ [resolved],
       history = (if effect k p = resolved then h @ [length cs] else h) \<rparr>"
    by (simp add: settle_def start_def set_state_def Let_def L)
  finally show ?thesis .
qed

lemma alone_result:
  assumes "active ex = None" "waiting ex = None" "length (handles ex) = length (commands ex)"
    and "effect k p \<noteq> pending"
  shows "run (alone k p (length (commands ex))) ex =
     ex\<lparr> commands := commands ex @
            [\<lparr> klass = k, state = (if effect k p = resolved then Finished else Cancelled),
               delay = p \<rparr>],
         handles := handles ex @ [resolved],
         history :=
           (if effect k p = resolved then history ex @ [length (commands ex)] else history ex) \<rparr>"
proof -
  have ex: "ex = \<lparr> commands = commands ex, active = None, waiting = None,
      handles = handles ex, history = history ex \<rparr>"
    using assms(1,2) by (cases ex) simp
  show ?thesis
    by (subst (1 2) ex) (simp add: alone_result_raw [OF assms(3,4)])
qed

subsection \<open>Outcomes of commands\<close>

lemma reachable_ok:
  "slots_ok (run es new_CommandExecutor)"
  "history_ok (run es new_CommandExecutor)"
  "handles_ok (run es new_CommandExecutor)"
  "outcome_ok (run es new_CommandExecutor)"
  by (simp_all add: slots_ok_run history_ok_run handles_ok_run outcome_ok_run
      slots_ok_new history_ok_new handles_ok_new outcome_ok_new)

lemma idle_alone:
  assumes "slots_ok ex" "active ex = None" "effect k p \<noteq> pending"
  shows "run (alone k p (length (commands ex))) ex =
     ex\<lparr> commands := commands ex @
            [\<lparr> klass = k, state = (if effect k p = resolved then Finished else Cancelled),
               delay = p \<rparr>],
         handles := handles ex @ [resolved],
         history :=
           (if effect k p = resolved then history ex @ [length (commands ex)] else history ex) \<rparr>"
  using assms slots_ok_idle [OF assms(1,2)]
  by (intro alone_result) (simp_all add: slots_ok_def)

lemma on_queue_ends:
  assumes "slots_ok ex" "active ex = Some c" "state (commands ex ! c) \<noteq> Interrupted"
    and "execute (commands ex ! c) \<noteq> pending"
  shows "state (commands (run_loop ex) ! c) =
           (if execute (commands ex ! c) = resolved then Finished else Cancelled)"
    and "history (run_loop ex) =
           (if execute (commands ex ! c) = resolved then history ex @ [c] else history ex)"
    and "active (run_loop ex) = None"
proof -
  have w: "waiting ex = None"
  proof (cases "waiting ex")
    case (Some w)
    from slots_ok_waiting(3) [OF assms(1) Some] assms(2,3) show ?thesis by auto
  qed simp
  from slots_ok_active [OF assms(1,2)] have c: "c < length (commands ex)" by simp
  have eq: "run_loop ex = settle c (execute (commands ex ! c)) (start c ex)"
    using assms(2) w assms(4) by (rule run_loop_single)
  show "state (commands (run_loop ex) ! c) =
           (if execute (commands ex ! c) = resolved then Finished else Cancelled)"
    unfolding eq using c assms(3) by (simp add: settle_fields(6) start_fields(1,6))
  show "history (run_loop ex) =
           (if execute (commands ex ! c) = resolved then history ex @ [c] else history ex)"
    unfolding eq using c assms(3) by (simp add: settle_fields(5) start_fields(5,6))
  show "active (run_loop ex) = None"
    unfolding eq using w by (simp add: settle_fields(2) start_fields(3))
qed

lemma waiting_ends:
  assumes "slots_ok ex" "waiting ex = Some c" "active ex = Some a"
    and "execute (commands ex ! a) \<noteq> pending" "execute (commands ex ! c) \<noteq> pending"
  shows "state (commands (run_loop ex) ! c) =
           (if execute (commands ex ! c) = resolved then Finished else Cancelled)"
    and "history (run_loop ex) =
           (if execute (commands ex ! c) = resolved then history ex @ [c] else history ex)"
proof -
  let ?ex1 = "settle a (execute (commands ex ! a)) (start a ex)"
  from slots_ok_waiting [OF assms(1,2)] assms(3)
  have c: "c < length (commands ex)" "state (commands ex ! c) = None'" "a \<noteq> c"
    and ia: "state (commands ex ! a) = Interrupted"
    by auto
  from slots_ok_active [OF assms(1,3)] have a: "a < length (commands ex)" by simp
  have ok1: "slots_ok ?ex1"
    using assms(1,3) by (intro slots_ok_settle slots_ok_start) (simp_all add: start_fields(2))
  have act1: "active ?ex1 = Some c"
    using assms(2) by (simp add: settle_fields(2) start_fields(3))
  have st1: "state (commands ?ex1 ! c) = None'"
    using c by (simp add: settle_fields(6) start_fields(6))
  have ex1: "execute (commands ?ex1 ! c) = execute (commands ex ! c)"
    by (simp add: settle_fields(7) start_fields(7))
  have h1: "history ?ex1 = history ex"
    using ia a by (simp add: settle_fields(5) start_fields(5,6))
  have loop: "run_loop ex = run_loop ?ex1"
    using assms(3,4) by (rule run_loop_settled)
  from on_queue_ends(1,2) [OF ok1 act1] st1 assms(5)
  show "state (commands (run_loop ex) ! c) =
           (if execute (commands ex ! c) = resolved then Finished else Cancelled)"
    and "history (run_loop ex) =
           (if execute (commands ex ! c) = resolved then history ex @ [c] else history ex)"
    unfolding loop by (simp_all add: ex1 h1)
qed




text \<open>
  C5. Let the executor be idle after any sequence of events, and let two commands be
  enqueued in turn, each awaited. If the effect routine of the first throws and the one of
  the second succeeds, the first ends \<open>Cancelled\<close>, the executor is idle again after it, and
  the second is executed and ends \<open>Finished\<close>.
\<close>

theorem failure_does_not_block:
  assumes "ex = run es new_CommandExecutor" "active ex = None"
    and "effect k1 p1 = rejected" "effect k2 p2 = resolved"
  shows "state (commands (run (alone k1 p1 (length (commands ex))) ex) ! length (commands ex))
           = Cancelled \<and>
         active (run (alone k1 p1 (length (commands ex))) ex) = None \<and>
         state (commands (run (alone k1 p1 (length (commands ex)) @
                               alone k2 p2 (Suc (length (commands ex)))) ex)
                  ! length (commands ex)) = Cancelled \<and>
         state (commands (run (alone k1 p1 (length (commands ex)) @
                               alone k2 p2 (Suc (length (commands ex)))) ex)
                  ! Suc (length (commands ex))) = Finished"
proof -
  let ?n = "length (commands ex)"
  let ?ex1 = "run (alone k1 p1 ?n) ex"
  have ok: "slots_ok ex"
    unfolding assms(1) by (rule reachable_ok)
  have ex1: "?ex1 = ex\<lparr> commands := commands ex @ [\<lparr> klass = k1, state = Cancelled, delay = p1 \<rparr>],
      handles := handles ex @ [resolved] \<rparr>"
    using idle_alone [OF ok assms(2), of k1 p1] assms(3) by simp
  have ok1: "slots_ok ?ex1"
    unfolding assms(1) run_append [symmetric] by (rule reachable_ok)
  have idle1: "active ?ex1 = None" and len1: "length (commands ?ex1) = Suc ?n"
    using assms(2) by (simp_all add: ex1)
  have ex2: "run (alone k2 p2 (Suc ?n)) ?ex1 =
      ?ex1\<lparr> commands := commands ?ex1 @ [\<lparr> klass = k2, state = Finished, delay = p2 \<rparr>],
        handles := handles ?ex1 @ [resolved],
        history := history ?ex1 @ [Suc ?n] \<rparr>"
    using idle_alone [OF ok1 idle1, of k2 p2] assms(4) by (simp add: len1)
  have "state (commands (run (alone k2 p2 (Suc ?n)) ?ex1) ! ?n) = Cancelled"
    unfolding ex2 by (simp add: ex1 nth_append)
  moreover have "state (commands (run (alone k2 p2 (Suc ?n)) ?ex1) ! Suc ?n) = Finished"
    unfolding ex2 using len1 by (simp add: nth_append)
  moreover have "state (commands ?ex1 ! ?n) = Cancelled"
    by (simp add: ex1)
  ultimately show ?thesis
    using idle1 by (simp add: run_append)
qed

theorem failure_does_not_block_witness:
  "active (run [] new_CommandExecutor) = None \<and>
   effect ErroringCommand pending = rejected \<and> effect FastCommand pending = resolved \<and>
   states (run (alone ErroringCommand pending 0 @ alone FastCommand pending 1)
     new_CommandExecutor) ! 0 = Cancelled \<and>
   states (run (alone ErroringCommand pending 0 @ alone FastCommand pending 1)
     new_CommandExecutor) ! 1 = Finished \<and>
   alone ErroringCommand pending 0 @ alone FastCommand pending 1 =
     [Enqueue ErroringCommand, Await, Enqueue FastCommand, Await]"
proof -
  have idle: "active (run [] new_CommandExecutor) = None"
    and len: "length (commands (run [] new_CommandExecutor)) = 0"
    by (simp_all add: new_CommandExecutor_def)
  have e: "effect ErroringCommand pending = rejected" "effect FastCommand pending = resolved"
    by (simp_all add: effect_def execute_def)
  have n: "length (commands (run (alone ErroringCommand pending 0 @ alone FastCommand pending 1)
      new_CommandExecutor)) = 2"
    by (simp add: alone_def new_CommandExecutor_def enqueue_def settle_def start_def
        set_state_def execute_def run_loop.simps Let_def)
  from failure_does_not_block [OF refl idle e] idle e n
  show ?thesis
    unfolding len by (simp add: states_def alone_def)
qed

text \<open>
  C2. Three delaying commands are enqueued in immediate succession. Before any delay is
  settled, the first command is \<open>Interrupted\<close> and the second and the third are in state
  \<open>None\<close>. After the delay of the first was rejected, the delays of the second and the
  third were resolved and the caller has awaited, the first is still \<open>Interrupted\<close>, the
  second is still in state \<open>None\<close>, and the third is \<open>Finished\<close>.
\<close>

theorem three_commands_in_succession:
  "states (run in_succession new_CommandExecutor) = [Interrupted, None', None'] \<and>
   map delay (commands (run in_succession new_CommandExecutor)) = [pending, pending, pending] \<and>
   states (run then_settled new_CommandExecutor) = [Interrupted, None', Finished]"
  by (simp add: in_succession_def then_settled_def states_def new_CommandExecutor_def
      enqueue_def interrupt_def set_state_def settle_delay_def settle_def start_def execute_def
      run_loop.simps Let_def)

subsection \<open>The handle returned by enqueue\<close>

lemma done_with_start:
  assumes "done_with a ex" "active ex = Some b"
  shows "done_with a (start b ex)"
proof -
  from assms have "b \<noteq> a" by (auto simp add: done_with_def)
  with assms slots_ok_start [of ex b] show ?thesis
    by (simp add: done_with_def start_fields)
qed

lemma done_with_settle:
  assumes "done_with a ex" "active ex = Some b"
  shows "done_with a (settle b p ex)"
proof -
  from assms have ba: "b \<noteq> a" and ok: "slots_ok ex" and a: "a < length (commands ex)"
    by (auto simp add: done_with_def)
  from ok a assms(1) have w: "waiting ex \<noteq> Some a"
    by (auto simp add: slots_ok_def done_with_def)
  from ok have len: "length (handles ex) = length (commands ex)"
    by (simp add: slots_ok_def)
  from ba assms(1) w slots_ok_settle [OF ok assms(2), of p] show ?thesis
    by (simp add: done_with_def settle_fields nth_update_any)
qed

lemma done_with_run_loop: "done_with a ex \<Longrightarrow> done_with a (run_loop ex)"
  by (rule run_loop_invariant) (simp_all add: done_with_start done_with_settle)

lemma run_loop_length: "length (commands (run_loop ex)) = length (commands ex)"
proof -
  have "length (commands (run_loop ex)) = n" if "length (commands ex) = n" for n
    using that
    by (rule run_loop_invariant [where P = "\<lambda>e. length (commands e) = n"])
       (simp_all add: start_fields(1) settle_fields(1))
  then show ?thesis by simp
qed

lemma run_loop_resolves:
  assumes "slots_ok ex" "active ex = Some a" "execute (commands ex ! a) \<noteq> pending"
  shows "done_with a (run_loop ex)"
proof -
  let ?ex1 = "start a ex"
  let ?ex2 = "settle a (execute (commands ex ! a)) ?ex1"
  have ok1: "slots_ok ?ex1" using assms(1,2) by (rule slots_ok_start)
  have act1: "active ?ex1 = Some a" using assms(2) by (simp add: start_fields)
  have ok2: "slots_ok ?ex2" using ok1 act1 by (rule slots_ok_settle)
  from assms(1,2) have a: "a < length (commands ex)" and w: "waiting ex \<noteq> Some a"
    and len: "length (handles ex) = length (commands ex)"
    by (auto simp add: slots_ok_def)
  have "done_with a ?ex2"
    using ok2 a w len
    by (simp add: done_with_def settle_fields start_fields)
  then have "done_with a (run_loop ?ex2)" by (rule done_with_run_loop)
  with run_loop_settled [OF assms(2,3)] show ?thesis by simp
qed

text \<open>
  C4. After any sequence of events, every command has its handle, no handle is rejected,
  and the handle of every command that is \<open>Finished\<close>, \<open>Cancelled\<close> or \<open>Interrupted\<close> has
  resolved. A command on the queue that is interrupted by the next enqueue has its handle
  resolved at once. Whenever the effect routine of the command on the queue has settled,
  be it resolved or rejected, and be the command interrupted or not, the handle of this
  command has resolved once the caller has awaited, and the command is then \<open>Finished\<close>,
  \<open>Cancelled\<close> or \<open>Interrupted\<close>. The same holds of a command that waits behind a settled
  command on the queue, once its own effect routine has settled: after the caller has
  awaited it is \<open>Finished\<close> or \<open>Cancelled\<close> and its handle has resolved. An error of the
  effect routine thus shows in the state of the command only.
\<close>

theorem enqueue_handle_resolves:
  assumes "ex = run es new_CommandExecutor"
  shows "length (handles ex) = length (commands ex) \<and>
         (\<forall>c<length (commands ex). handles ex ! c \<noteq> rejected) \<and>
         (\<forall>c<length (commands ex).
            state (commands ex ! c) = Finished \<or> state (commands ex ! c) = Cancelled \<or>
            state (commands ex ! c) = Interrupted
              \<longrightarrow> handles ex ! c = resolved) \<and>
         (active ex = Some a \<longrightarrow>
            state (commands (enqueue k ex) ! a) = Interrupted \<and>
            handles (enqueue k ex) ! a = resolved) \<and>
         (active ex = Some a \<and> execute (commands ex ! a) \<noteq> pending \<longrightarrow>
            handles (run_loop ex) ! a = resolved \<and>
            (state (commands (run_loop ex) ! a) = Finished \<or>
             state (commands (run_loop ex) ! a) = Cancelled \<or>
             state (commands (run_loop ex) ! a) = Interrupted)) \<and>
         (waiting ex = Some w \<and> active ex = Some a \<and> execute (commands ex ! a) \<noteq> pending \<and>
          execute (commands ex ! w) \<noteq> pending \<longrightarrow>
            handles (run_loop ex) ! w = resolved \<and>
            (state (commands (run_loop ex) ! w) = Finished \<or>
             state (commands (run_loop ex) ! w) = Cancelled))"
proof -
  have ok: "slots_ok ex" "handles_ok ex"
    unfolding assms by (rule reachable_ok)+
  have ended: "\<forall>c<length (commands ex).
      handles ex ! c \<noteq> rejected \<and>
      (state (commands ex ! c) = Finished \<or> state (commands ex ! c) = Cancelled \<or>
       state (commands ex ! c) = Interrupted \<longrightarrow> handles ex ! c = resolved)"
    using ok(2) by (simp add: handles_ok_def)
  have len: "length (handles ex) = length (commands ex)"
    using ok(1) by (simp add: slots_ok_def)
  have interrupted: "state (commands (enqueue k ex) ! a) = Interrupted \<and>
      handles (enqueue k ex) ! a = resolved"
    if "active ex = Some a"
  proof -
    from slots_ok_active(1) [OF ok(1) that] have a: "a < length (commands (enqueue k ex))"
      by (simp add: enqueue_fields(1))
    have s: "state (commands (enqueue k ex) ! a) = Interrupted"
      using ok(1) that by (rule enqueue_interrupts)
    have "handles_ok (enqueue k ex)"
      using ok by (simp add: handles_ok_enqueue)
    with a s show ?thesis by (simp add: handles_ok_def)
  qed
  have on_queue: "handles (run_loop ex) ! a = resolved \<and>
      (state (commands (run_loop ex) ! a) = Finished \<or>
       state (commands (run_loop ex) ! a) = Cancelled \<or>
       state (commands (run_loop ex) ! a) = Interrupted)"
    if "active ex = Some a" "execute (commands ex ! a) \<noteq> pending"
    using run_loop_resolves [OF ok(1) that] by (simp add: done_with_def)
  have behind: "handles (run_loop ex) ! w = resolved \<and>
      (state (commands (run_loop ex) ! w) = Finished \<or>
       state (commands (run_loop ex) ! w) = Cancelled)"
    if "waiting ex = Some w" "active ex = Some a" "execute (commands ex ! a) \<noteq> pending"
      "execute (commands ex ! w) \<noteq> pending"
  proof -
    from waiting_ends(1) [OF ok(1) that]
    have s: "state (commands (run_loop ex) ! w) = Finished \<or>
        state (commands (run_loop ex) ! w) = Cancelled"
      by (simp split: if_splits)
    have "handles_ok (run_loop ex)"
      using ok by (simp add: handles_ok_run_loop)
    moreover have "w < length (commands (run_loop ex))"
      using slots_ok_waiting(1) [OF ok(1) that(1)] by (simp add: run_loop_length)
    ultimately show ?thesis using s by (auto simp add: handles_ok_def)
  qed
  from len ended interrupted on_queue behind show ?thesis
    by blast
qed

theorem enqueue_handle_resolves_witness:
  "active (run first_rejected new_CommandExecutor) = Some 0 \<and>
   execute (commands (run first_rejected new_CommandExecutor) ! 0) = rejected \<and>
   state (commands (run first_rejected new_CommandExecutor) ! 0) = Interrupted \<and>
   handles (run first_rejected new_CommandExecutor) ! 0 = resolved \<and>
   handles (run_loop (run first_rejected new_CommandExecutor)) ! 0 = resolved \<and>
   handles (run first_rejected new_CommandExecutor) ! 2 \<noteq> rejected \<and>
   active (run [Enqueue DelayedCommand] new_CommandExecutor) = Some 0 \<and>
   handles (run [Enqueue DelayedCommand] new_CommandExecutor) ! 0 = pending \<and>
   handles (enqueue DelayedCommand (run [Enqueue DelayedCommand] new_CommandExecutor)) ! 0
     = resolved \<and>
   waiting (run (first_rejected @ [Resolve 1, Resolve 2]) new_CommandExecutor) = Some 2 \<and>
   active (run (first_rejected @ [Resolve 1, Resolve 2]) new_CommandExecutor) = Some 0 \<and>
   execute (commands (run (first_rejected @ [Resolve 1, Resolve 2]) new_CommandExecutor) ! 2)
     = resolved \<and>
   handles (run (first_rejected @ [Resolve 1, Resolve 2]) new_CommandExecutor) ! 2 = pending \<and>
   handles (run_loop (run (first_rejected @ [Resolve 1, Resolve 2]) new_CommandExecutor)) ! 2
     = resolved"
proof -
  let ?ex = "run first_rejected new_CommandExecutor"
  let ?one = "run [Enqueue DelayedCommand] new_CommandExecutor"
  let ?w = "run (first_rejected @ [Resolve 1, Resolve 2]) new_CommandExecutor"
  have ex: "?ex =
      \<lparr> commands = [\<lparr> klass = DelayedCommand, state = Interrupted, delay = rejected \<rparr>,
                    \<lparr> klass = DelayedCommand, state = None', delay = pending \<rparr>,
                    \<lparr> klass = DelayedCommand, state = None', delay = pending \<rparr>],
        active = Some 0, waiting = Some 2, handles = [resolved, resolved, pending],
        history = [] \<rparr>"
    by (simp add: first_rejected_def in_succession_def new_CommandExecutor_def enqueue_def
        interrupt_def set_state_def settle_delay_def Let_def)
  have h: "active ?ex = Some 0" "execute (commands ?ex ! 0) = rejected"
    "state (commands ?ex ! 0) = Interrupted" "0 < length (commands ?ex)"
    "2 < length (commands ?ex)"
    by (simp_all add: ex execute_def)
  have one: "?one = \<lparr> commands = [\<lparr> klass = DelayedCommand, state = None', delay = pending \<rparr>],
      active = Some 0, waiting = None, handles = [pending], history = [] \<rparr>"
    by (simp add: new_CommandExecutor_def enqueue_def Let_def)
  then have o: "active ?one = Some 0" "handles ?one ! 0 = pending"
    by simp_all
  have w: "?w = \<lparr> commands = [\<lparr> klass = DelayedCommand, state = Interrupted, delay = rejected \<rparr>,
        \<lparr> klass = DelayedCommand, state = None', delay = resolved \<rparr>,
        \<lparr> klass = DelayedCommand, state = None', delay = resolved \<rparr>],
      active = Some 0, waiting = Some 2, handles = [resolved, resolved, pending],
      history = [] \<rparr>"
    by (simp add: first_rejected_def in_succession_def new_CommandExecutor_def enqueue_def
        interrupt_def set_state_def settle_delay_def Let_def)
  then have b: "waiting ?w = Some 2" "active ?w = Some 0"
    "execute (commands ?w ! 0) = rejected" "execute (commands ?w ! 2) = resolved"
    "handles ?w ! 2 = pending"
    by (simp_all add: execute_def)
  note T = enqueue_handle_resolves [OF refl]
  from T [where es = first_rejected and a = 0] h
  have "handles ?ex ! 0 = resolved \<and> handles (run_loop ?ex) ! 0 = resolved \<and>
      handles ?ex ! 2 \<noteq> rejected"
    by simp
  moreover
  from T [where es = "[Enqueue DelayedCommand]" and a = 0 and k = DelayedCommand] o
  have "handles (enqueue DelayedCommand ?one) ! 0 = resolved"
    by simp
  moreover
  from T [where es = "first_rejected @ [Resolve 1, Resolve 2]" and a = 0 and w = 2] b
  have "handles (run_loop ?w) ! 2 = resolved"
    by simp
  ultimately show ?thesis
    using h(1-3) o b(1,2,4,5) by simp
qed
subsection \<open>Superseded commands\<close>

lemma chain_inv_new: "chain_inv new_CommandExecutor"
  by (simp add: chain_inv_def slots_ok_new) (simp add: new_CommandExecutor_def)

lemma chain_inv_enqueue:
  assumes inv: "chain_inv ex"
    and pre: "commands ex = [] \<or> active ex = Some (length (commands ex) - 1) \<or>
      waiting ex = Some (length (commands ex) - 1)"
  shows "chain_inv (enqueue k ex)"
proof -
  let ?n = "length (commands ex)"
  from inv have ok: "slots_ok ex"
    and old: "\<And>c. Suc c < ?n \<Longrightarrow> state (commands ex ! c) = Interrupted \<or>
         (state (commands ex ! c) = None' \<and> active ex \<noteq> Some c)"
    by (simp_all add: chain_inv_def)
  have A: "slots_ok (enqueue k ex)" using ok by (rule slots_ok_enqueue)
  have B: "state (commands (enqueue k ex) ! c) = Interrupted \<or>
         (state (commands (enqueue k ex) ! c) = None' \<and> active (enqueue k ex) \<noteq> Some c)"
    if c: "c < ?n" for c
  proof (cases "active ex")
    case None
    with slots_ok_idle [OF ok] pre c show ?thesis by auto
  next
    case (Some a)
    show ?thesis
    proof (cases "c = a")
      case True
      with enqueue_interrupts [OF ok Some, of k] show ?thesis by simp
    next
      case False
      with Some c have same: "state (commands (enqueue k ex) ! c) = state (commands ex ! c)"
        by (simp add: enqueue_state interrupt_fields)
      have act: "active (enqueue k ex) = Some a"
        using Some by (simp add: enqueue_fields)
      show ?thesis
      proof (cases "Suc c < ?n")
        case True
        with old [of c] same act False show ?thesis by auto
      next
        case last: False
        with c have cn: "c = ?n - 1" by simp
        from c have "commands ex \<noteq> []" by auto
        with pre Some False cn have "waiting ex = Some c" by simp
        with ok have "state (commands ex ! c) = None'" by (simp add: slots_ok_def)
        with same act False show ?thesis by simp
      qed
    qed
  qed
  have C: "Suc w = Suc ?n" if "waiting (enqueue k ex) = Some w" for w
    using that slots_ok_idle [OF ok]
    by (cases "active ex") (simp_all add: enqueue_fields)
  from A B C show ?thesis
    by (simp add: chain_inv_def enqueue_fields(1))
qed

lemma chain_inv_settle_delay: "chain_inv ex \<Longrightarrow> chain_inv (settle_delay c p ex)"
  by (simp add: chain_inv_def settle_delay_fields slots_ok_settle_delay)

lemma chain_inv_start:
  assumes "chain_inv ex" "active ex = Some a"
  shows "chain_inv (start a ex)"
proof -
  from assms(1) have ok: "slots_ok ex"
    and old: "\<And>c. Suc c < length (commands ex) \<Longrightarrow> state (commands ex ! c) = Interrupted \<or>
         (state (commands ex ! c) = None' \<and> active ex \<noteq> Some c)"
    and w: "\<And>w. waiting ex = Some w \<Longrightarrow> Suc w = length (commands ex)"
    by (simp_all add: chain_inv_def)
  have "state (commands (start a ex) ! c) = Interrupted \<or>
         (state (commands (start a ex) ! c) = None' \<and> active ex \<noteq> Some c)"
    if "Suc c < length (commands ex)" for c
    using old [OF that] assms(2) by (auto simp add: start_fields(6))
  with slots_ok_start [OF ok assms(2)] w show ?thesis
    by (simp add: chain_inv_def start_fields(1,2,3))
qed

lemma chain_inv_settle:
  assumes "chain_inv ex" "active ex = Some a"
  shows "chain_inv (settle a p ex)"
proof -
  from assms(1) have ok: "slots_ok ex"
    and old: "\<And>c. Suc c < length (commands ex) \<Longrightarrow> state (commands ex ! c) = Interrupted \<or>
         (state (commands ex ! c) = None' \<and> active ex \<noteq> Some c)"
    and w: "\<And>w. waiting ex = Some w \<Longrightarrow> Suc w = length (commands ex)"
    by (simp_all add: chain_inv_def)
  have "state (commands (settle a p ex) ! c) = Interrupted \<or>
         (state (commands (settle a p ex) ! c) = None' \<and> waiting ex \<noteq> Some c)"
    if c: "Suc c < length (commands ex)" for c
  proof -
    from w [of c] c have "waiting ex \<noteq> Some c" by auto
    with old [OF c] assms(2) show ?thesis
      by (auto simp add: settle_fields(6))
  qed
  with slots_ok_settle [OF ok assms(2), of p] show ?thesis
    by (simp add: chain_inv_def settle_fields(1,2,3))
qed

lemma chain_inv_run_loop: "chain_inv ex \<Longrightarrow> chain_inv (run_loop ex)"
  by (rule run_loop_invariant) (simp_all add: chain_inv_start chain_inv_settle)

lemma chain_inv_run: "chain_inv ex \<Longrightarrow> chained ex es \<Longrightarrow> chain_inv (run es ex)"
proof (induction es arbitrary: ex)
  case Nil
  then show ?case by simp
next
  case (Cons e es)
  show ?case
  proof (cases e)
    case (Enqueue k)
    with Cons.prems have "chain_inv (enqueue k ex)" "chained (enqueue k ex) es"
      by (simp_all add: chain_inv_enqueue)
    with Cons.IH [of "enqueue k ex"] Enqueue show ?thesis by simp
  next
    case (Resolve c)
    with Cons.prems Cons.IH [of "settle_delay c resolved ex"] show ?thesis
      by (simp add: chain_inv_settle_delay)
  next
    case (Reject c)
    with Cons.prems Cons.IH [of "settle_delay c rejected ex"] show ?thesis
      by (simp add: chain_inv_settle_delay)
  next
    case Await
    with Cons.prems Cons.IH [of "run_loop ex"] show ?thesis
      by (simp add: chain_inv_run_loop)
  qed
qed

text \<open>
  C1, as amended. Let commands be enqueued so that each is still waiting or on the queue
  when the next one is enqueued, with any settling of delays and awaiting in between. Then
  at any time every command except the last is either \<open>Interrupted\<close> or still in state
  \<open>None\<close>: none of them is \<open>Finished\<close> or \<open>Cancelled\<close>. A command that is \<open>Finished\<close> has an
  effect routine that resolved, and one that is \<open>Cancelled\<close> an effect routine that
  rejected. Enqueuing a command makes the command on the queue \<open>Interrupted\<close> at once, and
  withdraws the command that was waiting, which stays in state \<open>None\<close>.
\<close>

theorem superseded_never_end:
  assumes "chained new_CommandExecutor es" "ex = run es new_CommandExecutor"
  shows "(\<forall>c. Suc c < length (commands ex) \<longrightarrow>
            state (commands ex ! c) = Interrupted \<or> state (commands ex ! c) = None') \<and>
         (\<forall>c<length (commands ex).
            (state (commands ex ! c) = Finished \<longrightarrow> execute (commands ex ! c) = resolved) \<and>
            (state (commands ex ! c) = Cancelled \<longrightarrow> execute (commands ex ! c) = rejected)) \<and>
         (active ex = Some a \<longrightarrow> state (commands (enqueue k ex) ! a) = Interrupted) \<and>
         (waiting ex = Some w \<longrightarrow> state (commands (enqueue k ex) ! w) = None' \<and>
            active (enqueue k ex) \<noteq> Some w \<and> waiting (enqueue k ex) \<noteq> Some w)"
proof -
  have inv: "chain_inv ex"
    unfolding assms(2) using chain_inv_new assms(1) by (rule chain_inv_run)
  then have ok: "slots_ok ex" by (simp add: chain_inv_def)
  have out: "outcome_ok ex" unfolding assms(2) by (rule reachable_ok)
  have "state (commands (enqueue k ex) ! w) = None' \<and>
      active (enqueue k ex) \<noteq> Some w \<and> waiting (enqueue k ex) \<noteq> Some w"
    if w: "waiting ex = Some w"
  proof -
    from ok w obtain b where b: "active ex = Some b" "b \<noteq> w"
      and wn: "w < length (commands ex)" and s: "state (commands ex ! w) = None'"
      by (auto simp add: slots_ok_def)
    from b wn s show ?thesis
      by (simp add: enqueue_state enqueue_fields interrupt_fields)
  qed
  with inv out enqueue_interrupts [OF ok, of a k] show ?thesis
    by (auto simp add: chain_inv_def outcome_ok_def)
qed

theorem superseded_never_end_witness:
  "chained new_CommandExecutor [Enqueue DelayedCommand, Enqueue DelayedCommand] \<and>
   active (run [Enqueue DelayedCommand, Enqueue DelayedCommand] new_CommandExecutor) = Some 0 \<and>
   waiting (run [Enqueue DelayedCommand, Enqueue DelayedCommand] new_CommandExecutor) = Some 1 \<and>
   state (commands (run [Enqueue DelayedCommand, Enqueue DelayedCommand] new_CommandExecutor) ! 0)
     = Interrupted \<and>
   state (commands (enqueue DelayedCommand
     (run [Enqueue DelayedCommand, Enqueue DelayedCommand] new_CommandExecutor)) ! 0)
     = Interrupted \<and>
   state (commands (enqueue DelayedCommand
     (run [Enqueue DelayedCommand, Enqueue DelayedCommand] new_CommandExecutor)) ! 1) = None'"
proof -
  let ?es = "[Enqueue DelayedCommand, Enqueue DelayedCommand]"
  have ch: "chained new_CommandExecutor ?es"
    by (simp add: new_CommandExecutor_def enqueue_def Let_def)
  have ex: "run ?es new_CommandExecutor =
      \<lparr> commands = [\<lparr> klass = DelayedCommand, state = Interrupted, delay = pending \<rparr>,
                    \<lparr> klass = DelayedCommand, state = None', delay = pending \<rparr>],
        active = Some 0, waiting = Some 1, handles = [resolved, pending], history = [] \<rparr>"
    by (simp add: new_CommandExecutor_def enqueue_def interrupt_def set_state_def Let_def)
  then have h: "active (run ?es new_CommandExecutor) = Some 0"
    "waiting (run ?es new_CommandExecutor) = Some 1"
    "length (commands (run ?es new_CommandExecutor)) = 2"
    "state (commands (run ?es new_CommandExecutor) ! 0) = Interrupted"
    by simp_all
  from superseded_never_end [OF ch refl, of 0 DelayedCommand 1] h ch show ?thesis
    by simp
qed

text \<open>
  C1 as stated fails at three commands, in the scenario of the test: after the delays are
  settled and the handles awaited, the executor is idle, every handle has resolved, and
  the second command is in state \<open>None\<close>, not \<open>Interrupted\<close>.
\<close>

theorem superseded_counterexample:
  "chained new_CommandExecutor then_settled \<and>
   states (run then_settled new_CommandExecutor) ! 1 = None' \<and>
   states (run then_settled new_CommandExecutor) ! 1 \<noteq> Interrupted \<and>
   active (run then_settled new_CommandExecutor) = None \<and>
   waiting (run then_settled new_CommandExecutor) = None \<and>
   handles (run then_settled new_CommandExecutor) = [resolved, resolved, resolved]"
  by (simp add: in_succession_def then_settled_def states_def new_CommandExecutor_def
      enqueue_def interrupt_def set_state_def settle_delay_def settle_def start_def execute_def
      run_loop.simps Let_def)

end
